theory Spec2Isabelle
  imports Main "HOL-Library.Word"
begin

unbundle bit_operations_syntax

section \<open>Machine types\<close>

text \<open>
  The kernels work on fixed-width unsigned integers (\<open>uint8_t\<close> .. \<open>uint64_t\<close>); arithmetic
  on them wraps around, as it does on \<open>'a word\<close>.  A byte buffer handed to a kernel as an
  \<open>unsigned char*\<close> is the list of the bytes that can be read from the pointer on; advancing
  the pointer by \<open>k\<close> is \<open>drop k\<close>.  A read beyond the end of the list has no defined
  behaviour in C++ and is the value \<open>None\<close> of the model.
\<close>

type_synonym u8 = "8 word"
type_synonym u16 = "16 word"
type_synonym u32 = "32 word"
type_synonym u64 = "64 word"

text \<open>
  IEEE-754 values are kept as their bit patterns.  The arithmetic on them is done by the
  processor, not by code of the repository, so the operations the kernels use are a
  parameter of the model: every theorem below holds for whatever these operations compute.
\<close>

type_synonym f32 = "32 word"
type_synonym f64 = "64 word"

record fpu =
  f32_add :: "f32 \<Rightarrow> f32 \<Rightarrow> f32"
  f32_sub :: "f32 \<Rightarrow> f32 \<Rightarrow> f32"
  f32_mul :: "f32 \<Rightarrow> f32 \<Rightarrow> f32"
  f32_sqrt :: "f32 \<Rightarrow> f32"
  f32_to_f64 :: "f32 \<Rightarrow> f64"
  f64_div :: "f64 \<Rightarrow> f64 \<Rightarrow> f64"
  f64_sub :: "f64 \<Rightarrow> f64 \<Rightarrow> f64"
  u64_to_f64 :: "u64 \<Rightarrow> f64"
  cvtph_ps :: "u16 \<Rightarrow> f32"

definition f64_zero :: f64 where
  "f64_zero = 0"

definition f64_one :: f64 where
  "f64_one = 0x3FF0000000000000"

section \<open>Population count (bitutils.cpp)\<close>

text \<open>The number of set bits of a word, as a natural number.\<close>

definition bit_count :: "'a::len word \<Rightarrow> nat" where
  "bit_count x = length (filter (bit x) [0..<LENGTH('a)])"

lemma bit_count_card: "bit_count (x::'a::len word) = card {n. bit x n}"
proof -
  have "set (filter (bit x) [0..<LENGTH('a)]) = {n. bit x n}"
    by (auto dest: bit_imp_le_length)
  moreover have "distinct (filter (bit x) [0..<LENGTH('a)])" by simp
  ultimately show ?thesis
    unfolding bit_count_def by (metis distinct_card)
qed

lemma bit_count_le: "bit_count (x::'a::len word) \<le> LENGTH('a)"
  unfolding bit_count_def by (metis length_filter_le length_upt diff_zero)

lemma bit_count_0 [simp]: "bit_count (0::'a::len word) = 0"
  by (simp add: bit_count_def)

lemma bit_count_eq_0_iff: "bit_count (x::'a::len word) = 0 \<longleftrightarrow> x = 0"
proof
  assume "bit_count x = 0"
  then have "{n. bit x n} = {}" by (simp add: bit_count_card)
  then show "x = 0" by (auto intro: bit_eqI)
qed simp

subsection \<open>Clearing the lowest set bit removes exactly one bit\<close>

lemma finite_bits_nat: "finite {k. bit (n::nat) k}"
proof -
  have "take_bit n n = n" by (simp add: take_bit_nat_eq_self)
  then have "\<And>k. bit n k \<Longrightarrow> k < n"
    by (metis bit_take_bit_iff)
  then have "{k. bit n k} \<subseteq> {..<n}" by auto
  then show ?thesis by (rule finite_subset) simp
qed

lemma bits_nat_double: "{k. bit (2 * m :: nat) k} = Suc ` {k. bit m k}"
proof (rule set_eqI)
  fix k show "k \<in> {k. bit (2 * m :: nat) k} \<longleftrightarrow> k \<in> Suc ` {k. bit m k}"
    by (cases k) (auto simp: bit_double_iff bit_0 bit_Suc image_iff)
qed

lemma card_bits_double: "card {k. bit (2 * m :: nat) k} = card {k. bit m k}"
  by (simp add: bits_nat_double card_image)

lemma bits_nat_double1: "{k. bit (Suc (2 * m)) k} = insert 0 (Suc ` {k. bit m k})"
proof (rule set_eqI)
  fix k show "k \<in> {k. bit (Suc (2 * m)) k} \<longleftrightarrow> k \<in> insert 0 (Suc ` {k. bit m k})"
    by (cases k) (auto simp: bit_0 bit_Suc image_iff)
qed

lemma card_bits_double1: "card {k. bit (Suc (2 * m)) k} = Suc (card {k. bit m k})"
proof -
  have "0 \<notin> Suc ` {k. bit m k}" by auto
  then show ?thesis
    by (simp add: bits_nat_double1 card_image finite_bits_nat)
qed

lemma and_pred_even: "0 < m \<Longrightarrow> (2 * m) AND (2 * m - 1) = 2 * (m AND (m - 1 :: nat))"
proof -
  assume "0 < m"
  then have "2 * m - 1 = Suc (2 * (m - 1))" by simp
  then show ?thesis
    by (simp only: and_nat_rec[of "2 * m"]) simp
qed

lemma and_pred_odd: "Suc (2 * m) AND (Suc (2 * m) - 1) = 2 * m"
  by (simp add: and_nat_rec[of "Suc (2 * m)"])

lemma clear_lowest_nat:
  "0 < n \<Longrightarrow> Suc (card {k. bit (n AND (n - 1)) k}) = card {k. bit (n::nat) k}"
proof (induction n rule: less_induct)
  case (less n)
  show ?case
  proof (cases "even n")
    case True
    then obtain m where m: "n = 2 * m" by (elim evenE)
    with less.prems have m0: "0 < m" by simp
    have "n AND (n - 1) = 2 * (m AND (m - 1))"
      using m m0 and_pred_even by simp
    then show ?thesis using less.IH[of m] m m0 by (simp add: card_bits_double)
  next
    case False
    then obtain m where m: "n = Suc (2 * m)" by (elim oddE) simp
    then have "n AND (n - 1) = 2 * m"
      using and_pred_odd by simp
    then show ?thesis using m by (simp add: card_bits_double card_bits_double1)
  qed
qed

lemma bits_word_unat: "{k. bit (x::'a::len word) k} = {k. bit (unat x) k}"
  by (auto simp: bit_unsigned_iff dest: bit_imp_le_length)

lemma clear_lowest_word:
  fixes x :: "'a::len word"
  assumes "x \<noteq> 0"
  shows "Suc (bit_count (x AND (x - 1))) = bit_count x"
proof -
  have "unat (x AND (x - 1)) = unat x AND (unat x - 1)"
    using assms by (simp add: unsigned_and_eq unat_minus_one)
  moreover have "0 < unat x" using assms by (simp add: unat_gt_0)
  ultimately show ?thesis
    using clear_lowest_nat[of "unat x"] by (simp add: bit_count_card bits_word_unat)
qed

subsection \<open>\<open>popcount_u64\<close>\<close>

text \<open>
  Brian Kernighan's loop: \<open>while (x) { x &= x - 1; count++; }\<close>.  The loop state is the pair
  of \<open>x\<close> and \<open>count\<close>; the recursion is accepted because the number of set bits of \<open>x\<close>
  goes down in every iteration.
\<close>

function popcount_loop :: "u64 \<Rightarrow> u64 \<Rightarrow> u64" where
  "popcount_loop x count = (if x \<noteq> 0 then popcount_loop (x AND (x - 1)) (count + 1) else count)"
  by pat_completeness auto
termination
proof (relation "measure (\<lambda>(x, count). bit_count x)")
  show "wf (measure (\<lambda>(x, count). bit_count x))" by simp
next
  fix x count :: u64
  assume "x \<noteq> 0"
  then have "Suc (bit_count (x AND (x - 1))) = bit_count x" by (rule clear_lowest_word)
  then show "((x AND (x - 1), count + 1), (x, count)) \<in> measure (\<lambda>(x, count). bit_count x)"
    by simp
qed

declare popcount_loop.simps [simp del]

definition popcount_u64 :: "u64 \<Rightarrow> u64" where
  "popcount_u64 x = popcount_loop x 0"

lemma popcount_loop_eq: "popcount_loop x count = count + of_nat (bit_count x)"
proof (induction x count rule: popcount_loop.induct)
  case (1 x count)
  show ?case
  proof (cases "x = 0")
    case True
    then show ?thesis by (simp add: popcount_loop.simps [of 0])
  next
    case False
    have "popcount_loop x count = popcount_loop (x AND (x - 1)) (count + 1)"
      using False by (simp add: popcount_loop.simps [of x])
    also have "\<dots> = count + 1 + of_nat (bit_count (x AND (x - 1)))"
      using False by (rule "1.IH")
    also have "\<dots> = count + of_nat (Suc (bit_count (x AND (x - 1))))"
      by simp
    also have "\<dots> = count + of_nat (bit_count x)"
      by (simp only: clear_lowest_word [OF False])
    finally show ?thesis .
  qed
qed

lemma popcount_u64_eq: "popcount_u64 x = of_nat (bit_count x)"
  by (simp add: popcount_u64_def popcount_loop_eq)

section \<open>Reading the byte buffers\<close>

text \<open>
  The kernels cast the byte pointer to \<open>uint64_t*\<close> and read eight bytes at a time; on the
  little-endian machines the code is built for, byte \<open>i\<close> of the buffer is bits
  \<open>8 * i .. 8 * i + 7\<close> of the value read.
\<close>

definition le_bytes :: "u8 list \<Rightarrow> 'a::len word" where
  "le_bytes bs = word_rcat (rev bs)"

lemma bit_le_bytes_iff:
  "bit (le_bytes bs :: 'a::len word) n \<longleftrightarrow>
     n < LENGTH('a) \<and> n div 8 < length bs \<and> bit (bs ! (n div 8)) (n mod 8)"
  using bit_horner_sum_uint_exp_iff [of bs n]
  by (simp add: le_bytes_def word_rcat_def bit_word_of_int_iff)

definition byte_bits :: "u8 list \<Rightarrow> nat set" where
  "byte_bits bs = {n. n div 8 < length bs \<and> bit (bs ! (n div 8)) (n mod 8)}"

lemma byte_bits_Nil [simp]: "byte_bits [] = {}"
  by (simp add: byte_bits_def)

lemma byte_bits_Cons:
  "byte_bits (b # bs) = {n. bit b n} \<union> (\<lambda>n. n + 8) ` byte_bits bs"
proof (rule set_eqI)
  fix n
  show "n \<in> byte_bits (b # bs) \<longleftrightarrow> n \<in> {n. bit b n} \<union> (\<lambda>n. n + 8) ` byte_bits bs"
  proof (cases "n < 8")
    case True
    then show ?thesis by (auto simp: byte_bits_def)
  next
    case False
    then obtain m where m: "n = m + 8" by (metis le_add_diff_inverse2 not_less)
    have nb: "\<not> bit b n" using False by (auto dest: bit_imp_le_length)
    have d: "(m + 8) div 8 = Suc (m div 8)" and r: "(m + 8) mod 8 = m mod 8" by simp_all
    have "n \<in> byte_bits (b # bs) \<longleftrightarrow> m \<in> byte_bits bs"
      unfolding byte_bits_def m mem_Collect_eq d r by simp
    also have "\<dots> \<longleftrightarrow> n \<in> (\<lambda>n. n + 8) ` byte_bits bs"
      unfolding m by auto
    finally show ?thesis using nb by simp
  qed
qed

lemma finite_byte_bits: "finite (byte_bits bs)"
proof -
  have "byte_bits bs \<subseteq> {..< 8 * length bs}"
    by (auto simp: byte_bits_def)
  then show ?thesis by (rule finite_subset) simp
qed

lemma card_byte_bits: "card (byte_bits bs) = sum_list (map bit_count bs)"
proof (induction bs)
  case Nil
  then show ?case by simp
next
  case (Cons b bs)
  have disj: "{n. bit b n} \<inter> (\<lambda>n. n + 8) ` byte_bits bs = {}"
    by (auto dest: bit_imp_le_length)
  have "card (byte_bits (b # bs)) = card {n. bit b n} + card ((\<lambda>n. n + 8) ` byte_bits bs)"
    unfolding byte_bits_Cons
    by (rule card_Un_disjoint) (simp_all add: finite_byte_bits disj)
  also have "card ((\<lambda>n. n + 8) ` byte_bits bs) = card (byte_bits bs)"
    by (rule card_image) (simp add: inj_on_def)
  finally show ?case
    using Cons.IH by (simp add: bit_count_card)
qed

lemma bit_count_le_bytes:
  assumes "8 * length bs \<le> LENGTH('a)"
  shows "bit_count (le_bytes bs :: 'a::len word) = sum_list (map bit_count bs)"
proof -
  have "{n. bit (le_bytes bs :: 'a word) n} = byte_bits bs"
    using assms by (auto simp: bit_le_bytes_iff byte_bits_def)
  then show ?thesis
    by (simp add: bit_count_card card_byte_bits)
qed

lemma le_bytes_xor:
  "length as = length bs \<Longrightarrow>
   (le_bytes as :: 'a::len word) XOR le_bytes bs = le_bytes (map2 (XOR) as bs)"
  by (rule bit_eqI) (auto simp: bit_le_bytes_iff bit_xor_iff)

lemma le_bytes_and:
  "length as = length bs \<Longrightarrow>
   (le_bytes as :: 'a::len word) AND le_bytes bs = le_bytes (map2 (AND) as bs)"
  by (rule bit_eqI) (auto simp: bit_le_bytes_iff bit_and_iff)

lemma le_bytes_or:
  "length as = length bs \<Longrightarrow>
   (le_bytes as :: 'a::len word) OR le_bytes bs = le_bytes (map2 (OR) as bs)"
  by (rule bit_eqI) (auto simp: bit_le_bytes_iff bit_or_iff)

section \<open>Scalar bit-vector kernels (bitutils.cpp)\<close>

text \<open>
  \<open>hamming_distance_default\<close> and \<open>jaccard_distance_default\<close>: a loop over 8-byte words
  followed by a loop over the remaining bytes.  Each loop is a recursive function on the
  loop state; the first hands its final state to the second.
\<close>

definition load_u64 :: "u8 list \<Rightarrow> u64 option" where
  "load_u64 p = (if length p < 8 then None else Some (le_bytes (take 8 p)))"

function hamming_loop64 :: "u32 \<Rightarrow> u8 list \<Rightarrow> u8 list \<Rightarrow> u64 \<Rightarrow> (u32 \<times> u8 list \<times> u8 list \<times> u64) option" where
  "hamming_loop64 bytes ax64 bx64 v =
     (if 8 \<le> bytes then
        (case (load_u64 ax64, load_u64 bx64) of
           (Some a, Some b) \<Rightarrow>
             hamming_loop64 (bytes - 8) (drop 8 ax64) (drop 8 bx64) (v + popcount_u64 (a XOR b))
         | _ \<Rightarrow> None)
      else Some (bytes, ax64, bx64, v))"
  by pat_completeness auto
termination
  by (relation "measure (\<lambda>(bytes, ax64, bx64, v). unat bytes)")
     (simp_all add: unat_sub word_le_nat_alt)

function hamming_loop8 :: "u32 \<Rightarrow> u8 list \<Rightarrow> u8 list \<Rightarrow> u64 \<Rightarrow> u64 option" where
  "hamming_loop8 bytes ax8 bx8 v =
     (if 0 < bytes then
        (case (ax8, bx8) of
           (a # ax', b # bx') \<Rightarrow>
             hamming_loop8 (bytes - 1) ax' bx' (v + popcount_u64 (ucast (a XOR b)))
         | _ \<Rightarrow> None)
      else Some v)"
  by pat_completeness auto
termination
  by (relation "measure (\<lambda>(bytes, ax8, bx8, v). unat bytes)")
     (simp_all add: unat_minus_one word_greater_zero_iff unat_gt_0)

declare hamming_loop64.simps [simp del] hamming_loop8.simps [simp del]

definition hamming_distance_default :: "u32 \<Rightarrow> u8 list \<Rightarrow> u8 list \<Rightarrow> u64 \<Rightarrow> u64 option" where
  "hamming_distance_default bytes ax bx distance =
     (case hamming_loop64 bytes ax bx distance of
        None \<Rightarrow> None
      | Some (bytes', ax8, bx8, v) \<Rightarrow> hamming_loop8 bytes' ax8 bx8 v)"

function jaccard_loop64 :: "u32 \<Rightarrow> u8 list \<Rightarrow> u8 list \<Rightarrow> u64 \<Rightarrow> u64 \<Rightarrow> (u32 \<times> u8 list \<times> u8 list \<times> u64 \<times> u64) option" where
  "jaccard_loop64 bytes ax64 bx64 and_data or_data =
     (if 8 \<le> bytes then
        (case (load_u64 ax64, load_u64 bx64) of
           (Some a, Some b) \<Rightarrow>
             jaccard_loop64 (bytes - 8) (drop 8 ax64) (drop 8 bx64)
               (and_data + popcount_u64 (a AND b)) (or_data + popcount_u64 (a OR b))
         | _ \<Rightarrow> None)
      else Some (bytes, ax64, bx64, and_data, or_data))"
  by pat_completeness auto
termination
  by (relation "measure (\<lambda>(bytes, ax64, bx64, and_data, or_data). unat bytes)")
     (simp_all add: unat_sub word_le_nat_alt)

function jaccard_loop8 :: "u32 \<Rightarrow> u8 list \<Rightarrow> u8 list \<Rightarrow> u64 \<Rightarrow> u64 \<Rightarrow> (u64 \<times> u64) option" where
  "jaccard_loop8 bytes ax8 bx8 and_data or_data =
     (if 0 < bytes then
        (case (ax8, bx8) of
           (a # ax', b # bx') \<Rightarrow>
             jaccard_loop8 (bytes - 1) ax' bx'
               (and_data + popcount_u64 (ucast (a AND b))) (or_data + popcount_u64 (ucast (a OR b)))
         | _ \<Rightarrow> None)
      else Some (and_data, or_data))"
  by pat_completeness auto
termination
  by (relation "measure (\<lambda>(bytes, ax8, bx8, and_data, or_data). unat bytes)")
     (simp_all add: unat_minus_one word_greater_zero_iff unat_gt_0)

declare jaccard_loop64.simps [simp del] jaccard_loop8.simps [simp del]

definition jaccard_distance_default ::
    "fpu \<Rightarrow> u32 \<Rightarrow> u8 list \<Rightarrow> u8 list \<Rightarrow> u64 \<Rightarrow> u64 \<Rightarrow> u64 \<Rightarrow> f64 option" where
  "jaccard_distance_default fp bytes ax bx ab aa bb =
     (case jaccard_loop64 bytes ax bx ab 0 of
        None \<Rightarrow> None
      | Some (bytes', ax8, bx8, and_data, or_data) \<Rightarrow>
          (case jaccard_loop8 bytes' ax8 bx8 and_data or_data of
             None \<Rightarrow> None
           | Some (and_data, or_data) \<Rightarrow>
               if or_data = 0 then Some f64_zero
               else Some (f64_sub fp f64_one
                            (f64_div fp (u64_to_f64 fp and_data) (u64_to_f64 fp or_data)))))"

subsection \<open>The AVX-512 kernel (bitutils.cpp)\<close>

text \<open>
  \<open>jaccard_distance_avx512_popcount\<close> reads 64 bytes into a 512-bit register, combines
  the registers bitwise and adds the population counts of the eight 64-bit lanes
  (\<open>_mm_popcnt_u64\<close>, the processor's bit count).  What is left after the last full
  block is handed to \<open>jaccard_distance_default\<close>, with the running AND count as its seed.
\<close>

type_synonym m512i = "512 word"

definition mm512_loadu_si512 :: "u8 list \<Rightarrow> m512i option" where
  "mm512_loadu_si512 p = (if length p < 64 then None else Some (le_bytes (take 64 p)))"

definition mm512_extracti64_epi64 :: "m512i \<Rightarrow> nat \<Rightarrow> u64" where
  "mm512_extracti64_epi64 v i = ucast (drop_bit (64 * i) v)"

definition mm_popcnt_u64 :: "u64 \<Rightarrow> u64" where
  "mm_popcnt_u64 x = of_nat (bit_count x)"

function jaccard_avx512_loop ::
    "u32 \<Rightarrow> u8 list \<Rightarrow> u8 list \<Rightarrow> u64 \<Rightarrow> u64 \<Rightarrow> (u32 \<times> u8 list \<times> u8 list \<times> u64 \<times> u64) option" where
  "jaccard_avx512_loop bytes ax bx and_data or_data =
     (if 64 \<le> bytes then
        (case (mm512_loadu_si512 ax, mm512_loadu_si512 bx) of
           (Some a, Some b) \<Rightarrow>
             (let and_result = a AND b;
                  or_result = a OR b;
                  (and_data', or_data') =
                     foldl (\<lambda>(and_data, or_data) i.
                              (and_data + mm_popcnt_u64 (mm512_extracti64_epi64 and_result i),
                               or_data + mm_popcnt_u64 (mm512_extracti64_epi64 or_result i)))
                           (and_data, or_data) [0..<8]
              in jaccard_avx512_loop (bytes - 64) (drop 64 ax) (drop 64 bx) and_data' or_data')
         | _ \<Rightarrow> None)
      else Some (bytes, ax, bx, and_data, or_data))"
  by pat_completeness auto
termination
  by (relation "measure (\<lambda>(bytes, ax, bx, and_data, or_data). unat bytes)")
     (simp_all add: unat_sub word_le_nat_alt)

declare jaccard_avx512_loop.simps [simp del]

definition jaccard_distance_avx512_popcount ::
    "fpu \<Rightarrow> u32 \<Rightarrow> u8 list \<Rightarrow> u8 list \<Rightarrow> u64 \<Rightarrow> u64 \<Rightarrow> u64 \<Rightarrow> f64 option" where
  "jaccard_distance_avx512_popcount fp bytes ax bx ab aa bb =
     (case jaccard_avx512_loop bytes ax bx ab 0 of
        None \<Rightarrow> None
      | Some (bytes', ax', bx', and_data, or_data) \<Rightarrow>
          if 0 < bytes' then jaccard_distance_default fp bytes' ax' bx' and_data aa bb
          else if or_data = 0 then Some f64_zero
          else Some (f64_sub fp f64_one
                       (f64_div fp (u64_to_f64 fp and_data) (u64_to_f64 fp or_data))))"

text \<open>A 65-byte buffer: one full block and one byte, with bit 0 set in bytes 0 and 64.\<close>

definition tail_example :: "u8 list" where
  "tail_example = 1 # replicate 63 0 @ [1]"

subsection \<open>What the loops compute\<close>

text \<open>
  \<open>pair_bits f a b\<close> is the number of set bits in the bytewise combination of the two
  buffers by \<open>f\<close> (\<open>XOR\<close>, \<open>AND\<close> or \<open>OR\<close>).
\<close>

definition pair_bits :: "(u8 \<Rightarrow> u8 \<Rightarrow> u8) \<Rightarrow> u8 list \<Rightarrow> u8 list \<Rightarrow> nat" where
  "pair_bits f ax bx = sum_list (map2 (\<lambda>a b. bit_count (f a b)) ax bx)"

lemma pair_bits_Nil [simp]: "pair_bits f [] bx = 0" "pair_bits f ax [] = 0"
  by (simp_all add: pair_bits_def)

lemma pair_bits_Cons [simp]:
  "pair_bits f (a # ax) (b # bx) = bit_count (f a b) + pair_bits f ax bx"
  by (simp add: pair_bits_def)

lemma pair_bits_append:
  "length ax = length bx \<Longrightarrow>
   pair_bits f (ax @ ax') (bx @ bx') = pair_bits f ax bx + pair_bits f ax' bx'"
  by (simp add: pair_bits_def)

lemma pair_bits_map2: "pair_bits f ax bx = sum_list (map bit_count (map2 f ax bx))"
  by (simp add: pair_bits_def comp_def case_prod_unfold)

lemma pair_bits_split8:
  assumes "8 \<le> n" "n \<le> length ax" "n \<le> length bx"
  shows "pair_bits f (take n ax) (take n bx) =
         pair_bits f (take 8 ax) (take 8 bx) + pair_bits f (take (n - 8) (drop 8 ax)) (take (n - 8) (drop 8 bx))"
proof -
  have n: "n = 8 + (n - 8)" using assms by simp
  have "take n ax = take 8 ax @ take (n - 8) (drop 8 ax)"
    by (subst n) (simp only: take_add)
  moreover have "take n bx = take 8 bx @ take (n - 8) (drop 8 bx)"
    by (subst n) (simp only: take_add)
  moreover have "length (take 8 ax) = length (take 8 bx)" using assms by simp
  ultimately show ?thesis by (simp only: pair_bits_append)
qed

lemma bit_count_ucast_u8: "bit_count (ucast (c::u8) :: u64) = bit_count c"
proof -
  have "{n. bit (ucast c :: u64) n} = {n. bit c n}"
    by (auto simp: bit_ucast_iff dest: bit_imp_le_length)
  then show ?thesis by (simp add: bit_count_card)
qed

lemma load_u64_Some: "8 \<le> length p \<Longrightarrow> load_u64 p = Some (le_bytes (take 8 p))"
  by (simp add: load_u64_def)

lemma bit_count_load_xor:
  assumes "8 \<le> length ax" "8 \<le> length bx"
  shows "bit_count ((le_bytes (take 8 ax) :: u64) XOR le_bytes (take 8 bx)) =
         pair_bits (XOR) (take 8 ax) (take 8 bx)"
  using assms by (simp add: le_bytes_xor bit_count_le_bytes pair_bits_map2)

lemma hamming_loop8_eq:
  "unat bytes \<le> length ax \<Longrightarrow> unat bytes \<le> length bx \<Longrightarrow>
   hamming_loop8 bytes ax bx v =
     Some (v + of_nat (pair_bits (XOR) (take (unat bytes) ax) (take (unat bytes) bx)))"
proof (induction bytes ax bx v rule: hamming_loop8.induct)
  case (1 bytes ax8 bx8 v)
  show ?case
  proof (cases "0 < bytes")
    case False
    then have "unat bytes = 0" by (simp add: word_greater_zero_iff)
    with False show ?thesis by (simp add: hamming_loop8.simps [of bytes])
  next
    case True
    then have pos: "0 < unat bytes" by (simp add: word_greater_zero_iff unat_gt_0)
    then obtain a ax' where ax: "ax8 = a # ax'" using "1.prems" by (cases ax8) auto
    from pos obtain b bx' where bx: "bx8 = b # bx'" using "1.prems" by (cases bx8) auto
    have u: "unat (bytes - 1) = unat bytes - 1"
      using True by (simp add: unat_minus_one word_greater_zero_iff)
    have S: "unat bytes = Suc (unat bytes - 1)" using pos by simp
    have IH: "hamming_loop8 (bytes - 1) ax' bx' (v + popcount_u64 (ucast (a XOR b))) =
        Some (v + popcount_u64 (ucast (a XOR b)) +
              of_nat (pair_bits (XOR) (take (unat bytes - 1) ax') (take (unat bytes - 1) bx')))"
      using "1.IH"[OF True refl ax bx] "1.prems" u ax bx pos by simp
    have "hamming_loop8 bytes ax8 bx8 v =
          hamming_loop8 (bytes - 1) ax' bx' (v + popcount_u64 (ucast (a XOR b)))"
      using True ax bx by (simp add: hamming_loop8.simps [of bytes])
    also note IH
    also have "take (unat bytes) ax8 = a # take (unat bytes - 1) ax'"
      by (subst S) (simp add: ax)
    then have "pair_bits (XOR) (take (unat bytes) ax8) (take (unat bytes) bx8) =
        bit_count (a XOR b) + pair_bits (XOR) (take (unat bytes - 1) ax') (take (unat bytes - 1) bx')"
      by (subst (2) S) (simp add: bx)
    then have "v + popcount_u64 (ucast (a XOR b)) +
              of_nat (pair_bits (XOR) (take (unat bytes - 1) ax') (take (unat bytes - 1) bx'))
          = v + of_nat (pair_bits (XOR) (take (unat bytes) ax8) (take (unat bytes) bx8))"
      by (simp add: popcount_u64_eq bit_count_ucast_u8)
    finally show ?thesis .
  qed
qed

lemma u32_sub8: "8 \<le> (bytes::u32) \<Longrightarrow> unat (bytes - 8) = unat bytes - 8"
  by (simp add: unat_sub)

lemma u32_ge8: "8 \<le> (bytes::u32) \<longleftrightarrow> 8 \<le> unat bytes"
  by (simp add: word_le_nat_alt)

lemma hamming_loops_eq:
  "unat bytes \<le> length ax \<Longrightarrow> unat bytes \<le> length bx \<Longrightarrow>
   (case hamming_loop64 bytes ax bx v of
      None \<Rightarrow> None
    | Some (bytes', ax8, bx8, v') \<Rightarrow> hamming_loop8 bytes' ax8 bx8 v') =
     Some (v + of_nat (pair_bits (XOR) (take (unat bytes) ax) (take (unat bytes) bx)))"
proof (induction bytes ax bx v rule: hamming_loop64.induct)
  case (1 bytes ax64 bx64 v)
  show ?case
  proof (cases "8 \<le> bytes")
    case False
    then show ?thesis using "1.prems" by (simp add: hamming_loop64.simps [of bytes] hamming_loop8_eq)
  next
    case True
    then have n8: "8 \<le> unat bytes" by (simp add: u32_ge8)
    let ?a = "le_bytes (take 8 ax64) :: u64" and ?b = "le_bytes (take 8 bx64) :: u64"
    have la: "load_u64 ax64 = Some ?a" and lb: "load_u64 bx64 = Some ?b"
      using n8 "1.prems" by (simp_all add: load_u64_Some)
    have step: "hamming_loop64 bytes ax64 bx64 v =
        hamming_loop64 (bytes - 8) (drop 8 ax64) (drop 8 bx64) (v + popcount_u64 (?a XOR ?b))"
      using True la lb by (simp add: hamming_loop64.simps [of bytes])
    have IH: "(case hamming_loop64 (bytes - 8) (drop 8 ax64) (drop 8 bx64) (v + popcount_u64 (?a XOR ?b)) of
        None \<Rightarrow> None
      | Some (bytes', ax8, bx8, v') \<Rightarrow> hamming_loop8 bytes' ax8 bx8 v') =
      Some (v + popcount_u64 (?a XOR ?b) +
            of_nat (pair_bits (XOR) (take (unat bytes - 8) (drop 8 ax64)) (take (unat bytes - 8) (drop 8 bx64))))"
      using "1.IH"[OF True refl la lb] "1.prems" n8 by (simp add: u32_sub8[OF True])
    have "popcount_u64 (?a XOR ?b) = of_nat (pair_bits (XOR) (take 8 ax64) (take 8 bx64))"
      using n8 "1.prems" by (simp add: popcount_u64_eq bit_count_load_xor)
    then have "v + popcount_u64 (?a XOR ?b) +
            of_nat (pair_bits (XOR) (take (unat bytes - 8) (drop 8 ax64)) (take (unat bytes - 8) (drop 8 bx64)))
        = v + of_nat (pair_bits (XOR) (take (unat bytes) ax64) (take (unat bytes) bx64))"
      using pair_bits_split8[OF n8 "1.prems", of "(XOR)"] by simp
    then show ?thesis
      using IH by (simp only: step)
  qed
qed

lemma bit_count_load_and:
  assumes "8 \<le> length ax" "8 \<le> length bx"
  shows "bit_count ((le_bytes (take 8 ax) :: u64) AND le_bytes (take 8 bx)) =
         pair_bits (AND) (take 8 ax) (take 8 bx)"
  using assms by (simp add: le_bytes_and bit_count_le_bytes pair_bits_map2)

lemma bit_count_load_or:
  assumes "8 \<le> length ax" "8 \<le> length bx"
  shows "bit_count ((le_bytes (take 8 ax) :: u64) OR le_bytes (take 8 bx)) =
         pair_bits (OR) (take 8 ax) (take 8 bx)"
  using assms by (simp add: le_bytes_or bit_count_le_bytes pair_bits_map2)

lemma jaccard_loop8_eq:
  "unat bytes \<le> length ax \<Longrightarrow> unat bytes \<le> length bx \<Longrightarrow>
   jaccard_loop8 bytes ax bx and_data or_data =
     Some (and_data + of_nat (pair_bits (AND) (take (unat bytes) ax) (take (unat bytes) bx)),
           or_data + of_nat (pair_bits (OR) (take (unat bytes) ax) (take (unat bytes) bx)))"
proof (induction bytes ax bx and_data or_data rule: jaccard_loop8.induct)
  case (1 bytes ax8 bx8 and_data or_data)
  show ?case
  proof (cases "0 < bytes")
    case False
    then have "unat bytes = 0" by (simp add: word_greater_zero_iff)
    with False show ?thesis by (simp add: jaccard_loop8.simps [of bytes])
  next
    case True
    then have pos: "0 < unat bytes" by (simp add: word_greater_zero_iff unat_gt_0)
    then obtain a ax' where ax: "ax8 = a # ax'" using "1.prems" by (cases ax8) auto
    from pos obtain b bx' where bx: "bx8 = b # bx'" using "1.prems" by (cases bx8) auto
    have u: "unat (bytes - 1) = unat bytes - 1"
      using True by (simp add: unat_minus_one word_greater_zero_iff)
    have S: "unat bytes = Suc (unat bytes - 1)" using pos by simp
    let ?n = "unat bytes - 1"
    have IH: "jaccard_loop8 (bytes - 1) ax' bx'
          (and_data + popcount_u64 (ucast (a AND b))) (or_data + popcount_u64 (ucast (a OR b))) =
        Some (and_data + popcount_u64 (ucast (a AND b)) + of_nat (pair_bits (AND) (take ?n ax') (take ?n bx')),
              or_data + popcount_u64 (ucast (a OR b)) + of_nat (pair_bits (OR) (take ?n ax') (take ?n bx')))"
      using "1.IH"[OF True refl ax bx] "1.prems" u ax bx pos by simp
    have step: "jaccard_loop8 bytes ax8 bx8 and_data or_data =
          jaccard_loop8 (bytes - 1) ax' bx'
            (and_data + popcount_u64 (ucast (a AND b))) (or_data + popcount_u64 (ucast (a OR b)))"
      using True ax bx by (simp add: jaccard_loop8.simps [of bytes])
    have ta: "take (unat bytes) ax8 = a # take ?n ax'"
      by (subst S) (simp add: ax)
    have tb: "take (unat bytes) bx8 = b # take ?n bx'"
      by (subst S) (simp add: bx)
    show ?thesis
      unfolding step IH ta tb
      by (simp add: popcount_u64_eq bit_count_ucast_u8)
  qed
qed

lemma jaccard_loops_eq:
  "unat bytes \<le> length ax \<Longrightarrow> unat bytes \<le> length bx \<Longrightarrow>
   (case jaccard_loop64 bytes ax bx and_data or_data of
      None \<Rightarrow> None
    | Some (bytes', ax8, bx8, and_data', or_data') \<Rightarrow> jaccard_loop8 bytes' ax8 bx8 and_data' or_data') =
     Some (and_data + of_nat (pair_bits (AND) (take (unat bytes) ax) (take (unat bytes) bx)),
           or_data + of_nat (pair_bits (OR) (take (unat bytes) ax) (take (unat bytes) bx)))"
proof (induction bytes ax bx and_data or_data rule: jaccard_loop64.induct)
  case (1 bytes ax64 bx64 and_data or_data)
  show ?case
  proof (cases "8 \<le> bytes")
    case False
    then show ?thesis using "1.prems" by (simp add: jaccard_loop64.simps [of bytes] jaccard_loop8_eq)
  next
    case True
    then have n8: "8 \<le> unat bytes" by (simp add: u32_ge8)
    let ?a = "le_bytes (take 8 ax64) :: u64" and ?b = "le_bytes (take 8 bx64) :: u64"
    let ?n = "unat bytes - 8"
    have la: "load_u64 ax64 = Some ?a" and lb: "load_u64 bx64 = Some ?b"
      using n8 "1.prems" by (simp_all add: load_u64_Some)
    have step: "jaccard_loop64 bytes ax64 bx64 and_data or_data =
        jaccard_loop64 (bytes - 8) (drop 8 ax64) (drop 8 bx64)
           (and_data + popcount_u64 (?a AND ?b)) (or_data + popcount_u64 (?a OR ?b))"
      using True la lb by (simp add: jaccard_loop64.simps [of bytes])
    have IH: "(case jaccard_loop64 (bytes - 8) (drop 8 ax64) (drop 8 bx64)
           (and_data + popcount_u64 (?a AND ?b)) (or_data + popcount_u64 (?a OR ?b)) of
        None \<Rightarrow> None
      | Some (bytes', ax8, bx8, and_data', or_data') \<Rightarrow> jaccard_loop8 bytes' ax8 bx8 and_data' or_data') =
      Some (and_data + popcount_u64 (?a AND ?b) +
              of_nat (pair_bits (AND) (take ?n (drop 8 ax64)) (take ?n (drop 8 bx64))),
            or_data + popcount_u64 (?a OR ?b) +
              of_nat (pair_bits (OR) (take ?n (drop 8 ax64)) (take ?n (drop 8 bx64))))"
      using "1.IH"[OF True refl la lb] "1.prems" n8 by (simp add: u32_sub8[OF True])
    have pa: "popcount_u64 (?a AND ?b) = of_nat (pair_bits (AND) (take 8 ax64) (take 8 bx64))"
      using n8 "1.prems" by (simp add: popcount_u64_eq bit_count_load_and)
    have po: "popcount_u64 (?a OR ?b) = of_nat (pair_bits (OR) (take 8 ax64) (take 8 bx64))"
      using n8 "1.prems" by (simp add: popcount_u64_eq bit_count_load_or)
    have "and_data + popcount_u64 (?a AND ?b) +
              of_nat (pair_bits (AND) (take ?n (drop 8 ax64)) (take ?n (drop 8 bx64)))
          = and_data + of_nat (pair_bits (AND) (take (unat bytes) ax64) (take (unat bytes) bx64))"
      using pair_bits_split8[OF n8 "1.prems", of "(AND)"] by (simp add: pa)
    moreover have "or_data + popcount_u64 (?a OR ?b) +
              of_nat (pair_bits (OR) (take ?n (drop 8 ax64)) (take ?n (drop 8 bx64)))
          = or_data + of_nat (pair_bits (OR) (take (unat bytes) ax64) (take (unat bytes) bx64))"
      using pair_bits_split8[OF n8 "1.prems", of "(OR)"] by (simp add: po)
    ultimately show ?thesis
      using IH by (simp only: step)
  qed
qed

lemma pair_bits_le: "pair_bits f ax bx \<le> 8 * length ax"
proof (induction ax arbitrary: bx)
  case Nil
  then show ?case by simp
next
  case (Cons a ax)
  show ?case
  proof (cases bx)
    case Nil
    then show ?thesis by simp
  next
    case (Cons b bx')
    have "bit_count (f a b) \<le> 8" using bit_count_le[of "f a b"] by simp
    then show ?thesis using Cons.IH[of bx'] Cons by simp
  qed
qed

lemma pair_bits_u64:
  assumes "length ax = unat (bytes::u32)"
  shows "unat (of_nat (pair_bits f ax bx) :: u64) = pair_bits f ax bx"
proof -
  have "unat bytes < 2 ^ 32" using unsigned_less[of bytes, where 'a=nat] by simp
  then have "pair_bits f ax bx < 2 ^ 64"
    using pair_bits_le[of f ax bx] assms by simp
  then show ?thesis by (simp add: unat_of_nat)
qed

section \<open>Claims about the scalar bit-vector kernels\<close>

text \<open>The equations that evaluate the kernels on concrete buffers.\<close>

lemmas bit_kernel_eval =
  hamming_distance_default_def hamming_loop64.simps hamming_loop8.simps
  jaccard_distance_default_def jaccard_loop64.simps jaccard_loop8.simps
  load_u64_def le_bytes_def word_rcat_def popcount_u64_def popcount_loop.simps
  word_le_nat_alt

lemma bit_count_u8_eval: "bit_count (c :: u8) = unat (popcount_u64 (ucast c))"
proof -
  have "bit_count (ucast c :: u64) \<le> 64" using bit_count_le[of "ucast c :: u64"] by simp
  then have "unat (of_nat (bit_count (ucast c :: u64)) :: u64) = bit_count (ucast c :: u64)"
    by (simp add: unat_of_nat)
  then show ?thesis by (simp add: popcount_u64_eq bit_count_ucast_u8)
qed

lemma pair_bits_xor_example: "pair_bits (XOR) [255 :: u8] [0] = 8"
  by (simp add: bit_count_u8_eval popcount_u64_def popcount_loop.simps)

text \<open>
  Claim C10.  For every 64-bit \<open>x\<close> the clear-lowest-set-bit loop of \<open>popcount_u64\<close>
  terminates: the loop is a total recursive function whose termination measure is the
  number of set bits of \<open>x\<close>, which \<open>x &= x - 1\<close> strictly decreases while \<open>x\<close> is not
  zero, so the loop equation holds for every state; the count returned is the number of
  set bits of the original \<open>x\<close>; and with it the two scalar bit-vector kernels are total:
  on every byte count and every pair of buffers of that length,
  \<open>hamming_distance_default\<close> and \<open>jaccard_distance_default\<close> return a value.
\<close>

theorem popcount_u64_total_correct:
  "popcount_u64 x = of_nat (bit_count x)
   \<and> unat (popcount_u64 x) = card {n. bit x n}
   \<and> (x \<noteq> 0 \<longrightarrow> bit_count (x AND (x - 1)) < bit_count x)
   \<and> popcount_loop x count =
       (if x \<noteq> 0 then popcount_loop (x AND (x - 1)) (count + 1) else count)
   \<and> (length ax = unat bytes \<and> length bx = unat bytes \<longrightarrow>
        (\<exists>r. hamming_distance_default bytes ax bx seed = Some r)
        \<and> (\<exists>d. jaccard_distance_default fp bytes ax bx ab aa bb = Some d))"
proof -
  have "bit_count x \<le> 64" using bit_count_le[of x] by simp
  then have "unat (of_nat (bit_count x) :: u64) = bit_count x"
    by (simp add: unat_of_nat)
  moreover have "x \<noteq> 0 \<Longrightarrow> bit_count (x AND (x - 1)) < bit_count x"
    using clear_lowest_word[of x] by simp
  moreover have "\<exists>r. hamming_distance_default bytes ax bx seed = Some r"
    if "length ax = unat bytes" "length bx = unat bytes"
    unfolding hamming_distance_default_def
    using hamming_loops_eq[of bytes ax bx seed] that by simp
  moreover have "\<exists>d. jaccard_distance_default fp bytes ax bx ab aa bb = Some d"
    if "length ax = unat bytes" "length bx = unat bytes"
  proof -
    have "(case jaccard_loop64 bytes ax bx ab 0 of
             None \<Rightarrow> None
           | Some (bytes', ax8, bx8, and_data', or_data') \<Rightarrow>
               jaccard_loop8 bytes' ax8 bx8 and_data' or_data') =
          Some (ab + of_nat (pair_bits (AND) ax bx), 0 + of_nat (pair_bits (OR) ax bx))"
      using jaccard_loops_eq[of bytes ax bx ab 0] that by simp
    then show ?thesis
      unfolding jaccard_distance_default_def
      by (auto split: option.splits prod.splits)
  qed
  ultimately show ?thesis
    using popcount_loop.simps[of x count] by (simp add: popcount_u64_eq bit_count_card)
qed

theorem popcount_u64_total_correct_witness:
  "popcount_u64 12 = 2 \<and> (12::u64) \<noteq> 0
   \<and> bit_count ((12::u64) AND (12 - 1)) < bit_count (12::u64)
   \<and> length [1,2,3,4,5,6,7,8,9::u8] = unat (9::u32)
   \<and> length [1,2,3,4,5,6,7,7,8::u8] = unat (9::u32)
   \<and> (\<exists>r. hamming_distance_default 9 [1,2,3,4,5,6,7,8,9] [1,2,3,4,5,6,7,7,8] 0 = Some r)
   \<and> (\<forall>fp. \<exists>d. jaccard_distance_default fp 9 [1,2,3,4,5,6,7,8,9] [1,2,3,4,5,6,7,7,8] 0 0 0 = Some d)"
proof -
  have L: "length [1,2,3,4,5,6,7,8,9::u8] = unat (9::u32) \<and> length [1,2,3,4,5,6,7,7,8::u8] = unat (9::u32)"
    by simp
  have "popcount_u64 12 = 2 \<and> (12::u64) \<noteq> 0
        \<and> bit_count ((12::u64) AND (12 - 1)) < bit_count (12::u64)"
    using popcount_u64_total_correct [of 12 0]
    by (simp add: popcount_u64_def popcount_loop.simps)
  moreover have "\<exists>r. hamming_distance_default 9 [1,2,3,4,5,6,7,8,9] [1,2,3,4,5,6,7,7,8] 0 = Some r"
    using popcount_u64_total_correct [of 0 0 "[1,2,3,4,5,6,7,8,9]" 9 "[1,2,3,4,5,6,7,7,8]" 0] L by blast
  moreover have "\<exists>d. jaccard_distance_default fp 9 [1,2,3,4,5,6,7,8,9] [1,2,3,4,5,6,7,7,8] 0 0 0 = Some d" for fp
    using popcount_u64_total_correct [of 0 0 "[1,2,3,4,5,6,7,8,9]" 9 "[1,2,3,4,5,6,7,7,8]" 0 fp 0 0 0] L by blast
  ultimately show ?thesis using L by blast
qed

text \<open>
  Claim C3, as stated, fails where the sum leaves \<open>uint64_t\<close>: with the seed
  \<open>2 ^ 64 - 1\<close> and one byte pair that differs in all eight bits the kernel returns \<open>7\<close>,
  not the integer \<open>2 ^ 64 + 7\<close>.
\<close>

theorem hamming_distance_default_wraps:
  "hamming_distance_default 1 [255] [0] 0xFFFFFFFFFFFFFFFF = Some 7
   \<and> unat (7 :: u64) \<noteq> unat (0xFFFFFFFFFFFFFFFF :: u64) + pair_bits (XOR) [255 :: u8] [0]"
  by (simp add: bit_kernel_eval pair_bits_xor_example)

text \<open>
  Claim C3, amended.  For every byte count, every pair of buffers of that length and every
  seed, the scalar \<open>hamming_distance_default\<close> returns the seed plus the number of set bits
  in the bytewise XOR of the buffers, the sum being taken in \<open>uint64_t\<close> (modulo
  \<open>2 ^ 64\<close>); it is the exact integer sum whenever that sum is below \<open>2 ^ 64\<close>; and the
  8-byte loop followed by the remainder loop computes what the per-byte loop alone
  computes on the whole buffer.
\<close>

theorem hamming_distance_default_correct:
  assumes "length ax = unat bytes" and "length bx = unat bytes"
  shows "hamming_distance_default bytes ax bx seed = Some (seed + of_nat (pair_bits (XOR) ax bx))
     \<and> hamming_distance_default bytes ax bx seed = hamming_loop8 bytes ax bx seed
     \<and> (\<exists>r. hamming_distance_default bytes ax bx seed = Some r
             \<and> unat r = (unat seed + pair_bits (XOR) ax bx) mod 2 ^ 64)
     \<and> (unat seed + pair_bits (XOR) ax bx < 2 ^ 64 \<longrightarrow>
          (\<exists>r. hamming_distance_default bytes ax bx seed = Some r
             \<and> unat r = unat seed + pair_bits (XOR) ax bx))"
proof -
  have A: "hamming_distance_default bytes ax bx seed = Some (seed + of_nat (pair_bits (XOR) ax bx))"
    unfolding hamming_distance_default_def
    using hamming_loops_eq[of bytes ax bx seed] assms by simp
  have B: "hamming_loop8 bytes ax bx seed = Some (seed + of_nat (pair_bits (XOR) ax bx))"
    using hamming_loop8_eq[of bytes ax bx seed] assms by simp
  have M: "unat (seed + of_nat (pair_bits (XOR) ax bx)) =
          (unat seed + pair_bits (XOR) ax bx) mod 2 ^ 64"
    by (simp add: unat_word_ariths unat_of_nat mod_add_right_eq)
  have C: "unat (seed + of_nat (pair_bits (XOR) ax bx)) = unat seed + pair_bits (XOR) ax bx"
    if "unat seed + pair_bits (XOR) ax bx < 2 ^ 64"
    using that M by simp
  show ?thesis using A B C M by simp
qed

theorem hamming_distance_default_correct_witness:
  "length [1,2,3,4,5,6,7,8,9::u8] = unat (9::u32) \<and> length [1,2,3,4,5,6,7,7,8::u8] = unat (9::u32)
   \<and> hamming_distance_default 9 [1,2,3,4,5,6,7,8,9] [1,2,3,4,5,6,7,7,8] 5 = Some 10
   \<and> hamming_loop8 9 [1,2,3,4,5,6,7,8,9] [1,2,3,4,5,6,7,7,8] 5 = Some 10"
  using hamming_distance_default_correct [of "[1,2,3,4,5,6,7,8,9]" 9 "[1,2,3,4,5,6,7,7,8]" 5]
  by (simp add: bit_kernel_eval)

section \<open>Claims about the Jaccard kernels\<close>

lemma mm_popcnt_u64_eq: "mm_popcnt_u64 x = popcount_u64 x"
  by (simp add: mm_popcnt_u64_def popcount_u64_eq)

lemma upt_0_8: "[0..<8] = [0, 1, 2, 3, 4, 5, 6, 7]"
  by code_simp

lemmas avx512_eval =
  jaccard_distance_avx512_popcount_def jaccard_avx512_loop.simps mm512_loadu_si512_def
  mm512_extracti64_epi64_def mm_popcnt_u64_eq upt_0_8

lemma tail_example_eq: "tail_example =
  [1,0,0,0,0,0,0,0, 0,0,0,0,0,0,0,0, 0,0,0,0,0,0,0,0, 0,0,0,0,0,0,0,0,
   0,0,0,0,0,0,0,0, 0,0,0,0,0,0,0,0, 0,0,0,0,0,0,0,0, 0,0,0,0,0,0,0,0, 1]"
  by (simp add: tail_example_def eval_nat_numeral)

lemma pair_bits_or_zero:
  "set ax \<subseteq> {0} \<Longrightarrow> set bx \<subseteq> {0} \<Longrightarrow> pair_bits (OR) ax bx = 0"
proof (induction ax arbitrary: bx)
  case Nil
  then show ?case by simp
next
  case (Cons a ax)
  then show ?case by (cases bx) simp_all
qed

lemma jaccard_distance_default_eq:
  assumes "length ax = unat bytes" and "length bx = unat bytes"
  shows "jaccard_distance_default fp bytes ax bx ab aa bb =
     Some (if pair_bits (OR) ax bx = 0 then f64_zero
           else f64_sub fp f64_one
                  (f64_div fp (u64_to_f64 fp (ab + of_nat (pair_bits (AND) ax bx)))
                              (u64_to_f64 fp (of_nat (pair_bits (OR) ax bx)))))"
proof -
  have L: "(case jaccard_loop64 bytes ax bx ab 0 of
             None \<Rightarrow> None
           | Some (bytes', ax8, bx8, and_data', or_data') \<Rightarrow>
               jaccard_loop8 bytes' ax8 bx8 and_data' or_data') =
          Some (ab + of_nat (pair_bits (AND) ax bx), of_nat (pair_bits (OR) ax bx))"
    using jaccard_loops_eq[of bytes ax bx ab 0] assms by simp
  have U: "unat (of_nat (pair_bits (OR) ax bx) :: u64) = pair_bits (OR) ax bx"
    by (rule pair_bits_u64[OF assms(1)])
  have Z: "(of_nat (pair_bits (OR) ax bx) :: u64) = 0 \<longleftrightarrow> pair_bits (OR) ax bx = 0"
  proof
    assume "(of_nat (pair_bits (OR) ax bx) :: u64) = 0"
    then have "unat (of_nat (pair_bits (OR) ax bx) :: u64) = 0" by simp
    then show "pair_bits (OR) ax bx = 0" by (simp only: U)
  next
    assume "pair_bits (OR) ax bx = 0"
    then show "(of_nat (pair_bits (OR) ax bx) :: u64) = 0" by simp
  qed
  obtain st where st: "jaccard_loop64 bytes ax bx ab 0 = Some st"
    using L by (cases "jaccard_loop64 bytes ax bx ab 0") simp_all
  obtain b' a8 b8 ad od where t: "st = (b', a8, b8, ad, od)" by (cases st)
  have "jaccard_loop8 b' a8 b8 ad od =
          Some (ab + of_nat (pair_bits (AND) ax bx), of_nat (pair_bits (OR) ax bx))"
    using L by (simp add: st t)
  then show ?thesis
    by (simp add: jaccard_distance_default_def st t Z)
qed

lemma jaccard_distance_default_0:
  "jaccard_distance_default fp 0 ax bx ab aa bb = Some f64_zero"
  by (simp add: jaccard_distance_default_def jaccard_loop64.simps [of 0] jaccard_loop8.simps [of 0])

lemma hamming_distance_default_0:
  "hamming_distance_default 0 ax bx seed = Some seed"
  by (simp add: hamming_distance_default_def hamming_loop64.simps [of 0] hamming_loop8.simps [of 0])

text \<open>
  Claim C4, as stated, fails where \<open>andSeed + popcount(a AND b)\<close> leaves \<open>uint64_t\<close>:
  with the seed \<open>2 ^ 64 - 1\<close> and the one-byte buffers \<open>[1]\<close>, \<open>[1]\<close> the 8-byte loop does
  nothing, and the remainder loop ends with the AND count \<open>0\<close> (and the OR count \<open>1\<close>),
  not with the integer \<open>2 ^ 64\<close>.
\<close>

theorem jaccard_and_count_wraps:
  "jaccard_loop64 1 [1] [1] 0xFFFFFFFFFFFFFFFF 0 = Some (1, [1], [1], 0xFFFFFFFFFFFFFFFF, 0)
   \<and> jaccard_loop8 1 [1] [1] 0xFFFFFFFFFFFFFFFF 0 = Some (0, 1)
   \<and> unat (0 :: u64) \<noteq> unat (0xFFFFFFFFFFFFFFFF :: u64) + pair_bits (AND) [1 :: u8] [1]"
  by (simp add: bit_kernel_eval)

text \<open>
  Claim C4, amended.  For every byte count, buffers of that length and AND-seed, the scalar
  \<open>jaccard_distance_default\<close> computes the AND count as the seed plus the number of set
  bits of the bytewise AND, in \<open>uint64_t\<close> (modulo \<open>2 ^ 64\<close>), and the OR count as the
  number of set bits of the bytewise OR (exactly); it returns \<open>0.0\<close> when the OR count is
  zero and otherwise the double \<open>1.0 - (double) andCount / (double) orCount\<close>, for
  whatever the conversion, the division and the subtraction of the processor compute.
  So two all-zero buffers give \<open>0.0\<close>; a byte count of zero gives \<open>0.0\<close>, and gives
  \<open>hamming_distance_default\<close> its seed.
\<close>

theorem jaccard_distance_default_correct:
  assumes "length ax = unat bytes" and "length bx = unat bytes"
  shows "jaccard_distance_default fp bytes ax bx andSeed normA normB =
           Some (if pair_bits (OR) ax bx = 0 then f64_zero
                 else f64_sub fp f64_one
                        (f64_div fp (u64_to_f64 fp (andSeed + of_nat (pair_bits (AND) ax bx)))
                                    (u64_to_f64 fp (of_nat (pair_bits (OR) ax bx)))))
     \<and> unat (andSeed + of_nat (pair_bits (AND) ax bx)) =
           (unat andSeed + pair_bits (AND) ax bx) mod 2 ^ 64
     \<and> unat (of_nat (pair_bits (OR) ax bx) :: u64) = pair_bits (OR) ax bx
     \<and> (set ax \<subseteq> {0} \<and> set bx \<subseteq> {0} \<longrightarrow>
            jaccard_distance_default fp bytes ax bx andSeed normA normB = Some f64_zero)
     \<and> (bytes = 0 \<longrightarrow>
            jaccard_distance_default fp bytes ax bx andSeed normA normB = Some f64_zero
            \<and> hamming_distance_default bytes ax bx seed = Some seed)"
proof -
  note E = jaccard_distance_default_eq[OF assms, of fp andSeed normA normB]
  have M: "unat (andSeed + of_nat (pair_bits (AND) ax bx)) =
           (unat andSeed + pair_bits (AND) ax bx) mod 2 ^ 64"
    by (simp add: unat_word_ariths unat_of_nat mod_add_right_eq)
  have Z: "jaccard_distance_default fp bytes ax bx andSeed normA normB = Some f64_zero"
    if "set ax \<subseteq> {0}" "set bx \<subseteq> {0}"
    using E pair_bits_or_zero[OF that] by simp
  show ?thesis
    using E M Z pair_bits_u64[OF assms(1), of "(OR)" bx]
      jaccard_distance_default_0[of fp ax bx andSeed normA normB]
      hamming_distance_default_0[of ax bx seed]
    by auto
qed

theorem jaccard_distance_default_correct_witness:
  "\<forall>fp. length [255 :: u8] = unat (1 :: u32) \<and> length [15 :: u8] = unat (1 :: u32)
     \<and> jaccard_distance_default fp 1 [255] [15] 3 0 0 =
           Some (f64_sub fp f64_one (f64_div fp (u64_to_f64 fp 7) (u64_to_f64 fp 8)))
     \<and> set [0, 0 :: u8] \<subseteq> {0}
     \<and> jaccard_distance_default fp 2 [0, 0] [0, 0] 3 0 0 = Some f64_zero
     \<and> jaccard_distance_default fp 0 [] [] 3 0 0 = Some f64_zero
     \<and> hamming_distance_default 0 [] [] 5 = Some 5"
proof
  fix fp
  have "pair_bits (AND) [255 :: u8] [15] = 4" and "pair_bits (OR) [255 :: u8] [15] = 8"
    by (simp_all add: bit_count_u8_eval popcount_u64_def popcount_loop.simps)
  then have "jaccard_distance_default fp 1 [255] [15] 3 0 0 =
           Some (f64_sub fp f64_one (f64_div fp (u64_to_f64 fp 7) (u64_to_f64 fp 8)))"
    using jaccard_distance_default_correct [of "[255]" 1 "[15]" fp 3 0 0 0] by simp
  moreover have "jaccard_distance_default fp 2 [0, 0] [0, 0] 3 0 0 = Some f64_zero"
    using jaccard_distance_default_correct [of "[0, 0]" 2 "[0, 0]" fp 3 0 0 0] by simp
  moreover have "jaccard_distance_default fp 0 [] [] 3 0 0 = Some f64_zero
      \<and> hamming_distance_default 0 [] [] 5 = Some 5"
    using jaccard_distance_default_correct [of "[]" 0 "[]" fp 3 0 0 5] by simp
  ultimately show "length [255 :: u8] = unat (1 :: u32) \<and> length [15 :: u8] = unat (1 :: u32)
     \<and> jaccard_distance_default fp 1 [255] [15] 3 0 0 =
           Some (f64_sub fp f64_one (f64_div fp (u64_to_f64 fp 7) (u64_to_f64 fp 8)))
     \<and> set [0, 0 :: u8] \<subseteq> {0}
     \<and> jaccard_distance_default fp 2 [0, 0] [0, 0] 3 0 0 = Some f64_zero
     \<and> jaccard_distance_default fp 0 [] [] 3 0 0 = Some f64_zero
     \<and> hamming_distance_default 0 [] [] 5 = Some 5"
    by simp
qed

text \<open>
  Claim C8.  The scalar \<open>jaccard_distance_default\<close> returns the same value for any two
  choices of its last two arguments (\<open>aa\<close>, \<open>bb\<close>: the norms).
\<close>

theorem jaccard_distance_default_ignores_norms:
  "jaccard_distance_default fp bytes ax bx andSeed normA normB =
   jaccard_distance_default fp bytes ax bx andSeed normA' normB'"
  by (simp add: jaccard_distance_default_def)

theorem jaccard_distance_default_ignores_norms_witness:
  "\<forall>fp. jaccard_distance_default fp 1 [255] [15] 3 11 22 =
         jaccard_distance_default fp 1 [255] [15] 3 0 0
     \<and> jaccard_distance_default fp 1 [255] [15] 3 11 22 =
           Some (f64_sub fp f64_one (f64_div fp (u64_to_f64 fp 7) (u64_to_f64 fp 8)))"
proof
  fix fp
  have "jaccard_distance_default fp 1 [255] [15] 3 0 0 =
           Some (f64_sub fp f64_one (f64_div fp (u64_to_f64 fp 7) (u64_to_f64 fp 8)))"
    by (simp add: bit_kernel_eval)
  then show "jaccard_distance_default fp 1 [255] [15] 3 11 22 =
         jaccard_distance_default fp 1 [255] [15] 3 0 0
     \<and> jaccard_distance_default fp 1 [255] [15] 3 11 22 =
           Some (f64_sub fp f64_one (f64_div fp (u64_to_f64 fp 7) (u64_to_f64 fp 8)))"
    using jaccard_distance_default_ignores_norms [of fp 1 "[255]" "[15]" 3 11 22 0 0] by simp
qed

text \<open>
  Claim C1 does not hold of the code.  On a buffer of 65 bytes the AVX-512 kernel counts
  the first 64 bytes itself and calls \<open>jaccard_distance_default\<close> on the last byte with
  the AND count as seed, but the OR count of the first block is not passed on: the
  remainder call starts its OR count at zero.  On \<open>tail_example\<close> against itself the
  scalar kernel divides 2 by 2, the AVX-512 kernel divides 2 by 1.
\<close>

theorem jaccard_avx512_drops_or_count:
  "jaccard_distance_avx512_popcount fp 65 tail_example tail_example 0 0 0 =
     Some (f64_sub fp f64_one (f64_div fp (u64_to_f64 fp 2) (u64_to_f64 fp 1)))
   \<and> jaccard_distance_default fp 65 tail_example tail_example 0 0 0 =
     Some (f64_sub fp f64_one (f64_div fp (u64_to_f64 fp 2) (u64_to_f64 fp 2)))"
  by (simp add: tail_example_eq avx512_eval bit_kernel_eval)

section \<open>Half-precision codec (halfutils.cpp)\<close>

text \<open>
  The build modelled is the portable one: \<open>half\<close> is \<open>uint16_t\<close> (no \<open>FLT16_SUPPORT\<close>), so
  \<open>half_to_float\<close> and \<open>float_to_half\<close> are the manual conversions.

  \<open>half_to_float_manual\<close> computes its result in float arithmetic from an integer below
  \<open>2 ^ 10\<close>: \<open>mantissa / 1024.0f\<close> and \<open>(1.0f + mantissa / 1024.0f) * pow(2.0f, exponent - 15)\<close>.
  Every intermediate value is an integer of at most 11 bits times a power of two between
  \<open>2 ^ -24\<close> and \<open>2 ^ 15\<close>, which binary32 holds exactly, so the result is the binary32
  value of \<open>n * 2 ^ k\<close> for the integers \<open>n\<close>, \<open>k\<close> of the expression.  \<open>f32_of_dyadic n k\<close> is
  the bit pattern of the binary32 value nearest to \<open>n * 2 ^ k\<close> (ties to even): \<open>q\<close> is the
  exponent of the unit in the last place, \<open>M\<close> the 24-bit significand, and the biased
  exponent is added to the significand so that a carry of the rounding moves into it.
\<close>

type_synonym half = u16

fun bit_length :: "nat \<Rightarrow> nat" where
  "bit_length n = (if n = 0 then 0 else Suc (bit_length (n div 2)))"

declare bit_length.simps [simp del]

definition rne_shift :: "nat \<Rightarrow> nat \<Rightarrow> nat" where
  "rne_shift n s =
     (let d = n div 2 ^ s; r = n mod 2 ^ s
      in if 2 ^ s < 2 * r \<or> (2 * r = 2 ^ s \<and> odd d) then d + 1 else d)"

definition f32_of_dyadic :: "nat \<Rightarrow> int \<Rightarrow> f32" where
  "f32_of_dyadic n k =
     (if n = 0 then 0
      else let q = max (k + int (bit_length n) - 24) (- 149);
               M = (if q \<le> k then n * 2 ^ nat (k - q) else rne_shift n (nat (q - k)));
               r = nat (q + 149) * 2 ^ 23 + M
           in if 0x7F800000 \<le> r then 0x7F800000 else of_nat r)"

definition f32_neg :: "f32 \<Rightarrow> f32" where
  "f32_neg x = x XOR 0x80000000"

definition f32_infinity :: f32 where
  "f32_infinity = 0x7F800000"

definition f32_quiet_NaN :: f32 where
  "f32_quiet_NaN = 0x7FC00000"

definition half_to_float_manual :: "u16 \<Rightarrow> f32" where
  "half_to_float_manual h =
     (let sign = drop_bit 15 h AND 0x0001;
          exponent = drop_bit 10 h AND 0x001f;
          mantissa = h AND 0x03ff
      in if exponent = 0 then
           (if mantissa = 0 then (if sign \<noteq> 0 then f32_neg 0 else 0)
            else let result = f32_of_dyadic (unat mantissa) (- 10)
                 in if sign \<noteq> 0 then f32_neg result else result)
         else if exponent = 31 then
           (if mantissa = 0 then (if sign \<noteq> 0 then f32_neg f32_infinity else f32_infinity)
            else f32_quiet_NaN)
         else let result = f32_of_dyadic (1024 + unat mantissa) (int (unat exponent) - 15 - 10)
              in if sign \<noteq> 0 then f32_neg result else result)"

definition float_to_half_manual :: "f32 \<Rightarrow> u16" where
  "float_to_half_manual bits =
     (let sign = drop_bit 31 bits AND 0x1;
          exponent = drop_bit 23 bits AND 0xff;
          mantissa = bits AND 0x7fffff
      in if exponent = 255 then
           ucast (push_bit 15 sign OR 0x7c00 OR (if mantissa \<noteq> 0 then 1 else 0))
         else
           let new_exponent = exponent - 127 + 15
           in if 31 \<le>s new_exponent then ucast (push_bit 15 sign OR 0x7c00)
              else if new_exponent \<le>s 0 then ucast (push_bit 15 sign)
              else
                let new_mantissa = (ucast (drop_bit 13 mantissa) :: u16)
                in if mantissa AND 0x1000 \<noteq> 0 then
                     (let new_mantissa = new_mantissa + 1
                      in if new_mantissa = 0x400 then
                           (let new_mantissa = (0 :: u16);
                                new_exponent = new_exponent + 1
                            in if new_exponent = 31 then ucast (push_bit 15 sign OR 0x7c00)
                               else ucast (push_bit 15 sign OR push_bit 10 new_exponent
                                            OR ucast new_mantissa))
                         else ucast (push_bit 15 sign OR push_bit 10 new_exponent
                                      OR ucast new_mantissa))
                   else ucast (push_bit 15 sign OR push_bit 10 new_exponent OR ucast new_mantissa))"

definition half_to_float :: "half \<Rightarrow> f32" where
  "half_to_float h = half_to_float_manual h"

definition float_to_half :: "f32 \<Rightarrow> half" where
  "float_to_half f = float_to_half_manual f"

lemmas codec_eval =
  half_to_float_manual_def float_to_half_manual_def f32_of_dyadic_def rne_shift_def
  bit_length.simps f32_neg_def f32_infinity_def f32_quiet_NaN_def
  half_to_float_def float_to_half_def word_sle_eq

section \<open>Half-vector kernels and their dispatcher (halfutils.hpp, halfutils.cpp)\<close>

text \<open>
  A kernel takes \<open>dim\<close> and two pointers to \<open>half\<close> arrays; a pointer is \<open>None\<close> when
  null and otherwise the list of the elements that can be read from it.  A kernel either
  throws (\<open>Inl\<close>) or returns a number (\<open>Inr\<close>); the outer \<open>option\<close> is \<open>None\<close> when the
  loop reads past the end of an array, which C++ leaves undefined.
\<close>

datatype error = InvalidArgument string | HalfutilsError string | BadFunctionCall

type_synonym 'r kernel = "int \<Rightarrow> half list option \<Rightarrow> half list option \<Rightarrow> (error + 'r) option"

definition HALFVEC_MAX_DIM :: nat where
  "HALFVEC_MAX_DIM = 16000"

definition max_dimensions :: nat where
  "max_dimensions = HALFVEC_MAX_DIM"

definition validate_dimensions :: "int \<Rightarrow> error + unit" where
  "validate_dimensions dim =
     (if dim \<le> 0 then Inl (InvalidArgument ''Dimensions must be positive'')
      else if dim > int max_dimensions then Inl (InvalidArgument ''Dimensions exceed maximum allowed'')
      else Inr ())"

definition f32_abs :: "f32 \<Rightarrow> f32" where
  "f32_abs x = x AND 0x7fffffff"

text \<open>\<open>x == 0.0f\<close>: true of both zeros, false of every other value and of NaN.\<close>

definition f32_is_zero :: "f32 \<Rightarrow> bool" where
  "f32_is_zero x \<longleftrightarrow> x AND 0x7fffffff = 0"

subsection \<open>Scalar kernels\<close>

text \<open>
  The loop \<open>for (int i = 0; i < dim; i++)\<close> of each kernel, as a recursion on the number of
  iterations left, the arrays read from position \<open>i\<close> on, and the accumulators.
\<close>

fun l2_squared_loop :: "fpu \<Rightarrow> nat \<Rightarrow> half list \<Rightarrow> half list \<Rightarrow> f32 \<Rightarrow> f32 option" where
  "l2_squared_loop fp 0 ax bx distance = Some distance"
| "l2_squared_loop fp (Suc n) (x # ax) (y # bx) distance =
     (let a = half_to_float x;
          b = half_to_float y;
          diff = f32_sub fp a b
      in l2_squared_loop fp n ax bx (f32_add fp distance (f32_mul fp diff diff)))"
| "l2_squared_loop fp (Suc n) ax bx distance = None"

fun inner_product_loop :: "fpu \<Rightarrow> nat \<Rightarrow> half list \<Rightarrow> half list \<Rightarrow> f32 \<Rightarrow> f32 option" where
  "inner_product_loop fp 0 ax bx result = Some result"
| "inner_product_loop fp (Suc n) (x # ax) (y # bx) result =
     (let a = half_to_float x;
          b = half_to_float y
      in inner_product_loop fp n ax bx (f32_add fp result (f32_mul fp a b)))"
| "inner_product_loop fp (Suc n) ax bx result = None"

fun cosine_loop ::
    "fpu \<Rightarrow> nat \<Rightarrow> half list \<Rightarrow> half list \<Rightarrow> f32 \<times> f32 \<times> f32 \<Rightarrow> (f32 \<times> f32 \<times> f32) option" where
  "cosine_loop fp 0 ax bx acc = Some acc"
| "cosine_loop fp (Suc n) (x # ax) (y # bx) (dot_product, norm_a, norm_b) =
     (let a = half_to_float x;
          b = half_to_float y
      in cosine_loop fp n ax bx
           (f32_add fp dot_product (f32_mul fp a b),
            f32_add fp norm_a (f32_mul fp a a),
            f32_add fp norm_b (f32_mul fp b b)))"
| "cosine_loop fp (Suc n) ax bx acc = None"

fun l1_loop :: "fpu \<Rightarrow> nat \<Rightarrow> half list \<Rightarrow> half list \<Rightarrow> f32 \<Rightarrow> f32 option" where
  "l1_loop fp 0 ax bx distance = Some distance"
| "l1_loop fp (Suc n) (x # ax) (y # bx) distance =
     (let a = half_to_float x;
          b = half_to_float y
      in l1_loop fp n ax bx (f32_add fp distance (f32_abs (f32_sub fp a b))))"
| "l1_loop fp (Suc n) ax bx distance = None"

definition l2_squared_distance_default :: "fpu \<Rightarrow> f32 kernel" where
  "l2_squared_distance_default fp dim ax bx =
     (case validate_dimensions dim of
        Inl e \<Rightarrow> Some (Inl e)
      | Inr _ \<Rightarrow>
          (case (ax, bx) of
             (Some a, Some b) \<Rightarrow> map_option Inr (l2_squared_loop fp (nat dim) a b 0)
           | _ \<Rightarrow> Some (Inl (InvalidArgument ''Input arrays cannot be null''))))"

definition inner_product_default :: "fpu \<Rightarrow> f32 kernel" where
  "inner_product_default fp dim ax bx =
     (case validate_dimensions dim of
        Inl e \<Rightarrow> Some (Inl e)
      | Inr _ \<Rightarrow>
          (case (ax, bx) of
             (Some a, Some b) \<Rightarrow> map_option Inr (inner_product_loop fp (nat dim) a b 0)
           | _ \<Rightarrow> Some (Inl (InvalidArgument ''Input arrays cannot be null''))))"

definition cosine_similarity_default :: "fpu \<Rightarrow> f64 kernel" where
  "cosine_similarity_default fp dim ax bx =
     (case validate_dimensions dim of
        Inl e \<Rightarrow> Some (Inl e)
      | Inr _ \<Rightarrow>
          (case (ax, bx) of
             (Some a, Some b) \<Rightarrow>
               (case cosine_loop fp (nat dim) a b (0, 0, 0) of
                  None \<Rightarrow> None
                | Some (dot_product, norm_a, norm_b) \<Rightarrow>
                    if f32_is_zero norm_a \<or> f32_is_zero norm_b
                    then Some (Inl (InvalidArgument ''Cannot compute cosine similarity of zero vectors''))
                    else Some (Inr (f64_div fp (f32_to_f64 fp dot_product)
                                  (f32_to_f64 fp (f32_mul fp (f32_sqrt fp norm_a) (f32_sqrt fp norm_b))))))
           | _ \<Rightarrow> Some (Inl (InvalidArgument ''Input arrays cannot be null''))))"

definition l1_distance_default :: "fpu \<Rightarrow> f32 kernel" where
  "l1_distance_default fp dim ax bx =
     (case validate_dimensions dim of
        Inl e \<Rightarrow> Some (Inl e)
      | Inr _ \<Rightarrow>
          (case (ax, bx) of
             (Some a, Some b) \<Rightarrow> map_option Inr (l1_loop fp (nat dim) a b 0)
           | _ \<Rightarrow> Some (Inl (InvalidArgument ''Input arrays cannot be null''))))"

subsection \<open>F16C kernels\<close>

text \<open>
  The accelerated kernels take eight elements at a time: \<open>_mm256_cvtph_ps\<close> converts them
  (the processor's conversion, \<open>cvtph_ps\<close>), the arithmetic is done lane by lane, and the
  eight lanes are added up as \<open>((x0 + x4) + (x1 + x5)) + ((x2 + x6) + (x3 + x7))\<close>.  The loop
  \<open>for (; i + 8 <= dim; i += 8)\<close> is a recursion on \<open>dim - i\<close>; what it leaves is done by the
  scalar loop.
\<close>

fun mm_hadd_ps :: "fpu \<Rightarrow> f32 list \<Rightarrow> f32 list \<Rightarrow> f32 list" where
  "mm_hadd_ps fp [a0, a1, a2, a3] [b0, b1, b2, b3] =
     [f32_add fp a0 a1, f32_add fp a2 a3, f32_add fp b0 b1, f32_add fp b2 b3]"
| "mm_hadd_ps fp a b = []"

definition horizontal_sum :: "fpu \<Rightarrow> f32 list \<Rightarrow> f32" where
  "horizontal_sum fp v =
     (let low = take 4 v;
          high = drop 4 v;
          sum = map2 (f32_add fp) low high;
          sum = mm_hadd_ps fp sum sum;
          sum = mm_hadd_ps fp sum sum
      in hd sum)"

function l2_squared_f16c_blocks ::
    "fpu \<Rightarrow> nat \<Rightarrow> half list \<Rightarrow> half list \<Rightarrow> f32 \<Rightarrow> (nat \<times> half list \<times> half list \<times> f32) option" where
  "l2_squared_f16c_blocks fp r ax bx distance =
     (if 8 \<le> r then
        (if length ax < 8 \<or> length bx < 8 then None
         else let a_f32 = map (cvtph_ps fp) (take 8 ax);
                  b_f32 = map (cvtph_ps fp) (take 8 bx);
                  diff = map2 (f32_sub fp) a_f32 b_f32;
                  squared = map2 (f32_mul fp) diff diff
              in l2_squared_f16c_blocks fp (r - 8) (drop 8 ax) (drop 8 bx)
                   (f32_add fp distance (horizontal_sum fp squared)))
      else Some (r, ax, bx, distance))"
  by pat_completeness auto
termination
  by (relation "measure (\<lambda>(fp, r, ax, bx, distance). r)") simp_all

function inner_product_f16c_blocks ::
    "fpu \<Rightarrow> nat \<Rightarrow> half list \<Rightarrow> half list \<Rightarrow> f32 \<Rightarrow> (nat \<times> half list \<times> half list \<times> f32) option" where
  "inner_product_f16c_blocks fp r ax bx result =
     (if 8 \<le> r then
        (if length ax < 8 \<or> length bx < 8 then None
         else let a_f32 = map (cvtph_ps fp) (take 8 ax);
                  b_f32 = map (cvtph_ps fp) (take 8 bx);
                  product = map2 (f32_mul fp) a_f32 b_f32
              in inner_product_f16c_blocks fp (r - 8) (drop 8 ax) (drop 8 bx)
                   (f32_add fp result (horizontal_sum fp product)))
      else Some (r, ax, bx, result))"
  by pat_completeness auto
termination
  by (relation "measure (\<lambda>(fp, r, ax, bx, result). r)") simp_all

function cosine_f16c_blocks ::
    "fpu \<Rightarrow> nat \<Rightarrow> half list \<Rightarrow> half list \<Rightarrow> f32 \<times> f32 \<times> f32 \<Rightarrow>
     (nat \<times> half list \<times> half list \<times> f32 \<times> f32 \<times> f32) option" where
  "cosine_f16c_blocks fp r ax bx acc =
     (if 8 \<le> r then
        (if length ax < 8 \<or> length bx < 8 then None
         else let a_f32 = map (cvtph_ps fp) (take 8 ax);
                  b_f32 = map (cvtph_ps fp) (take 8 bx);
                  dot = map2 (f32_mul fp) a_f32 b_f32;
                  norm_a_sq = map2 (f32_mul fp) a_f32 a_f32;
                  norm_b_sq = map2 (f32_mul fp) b_f32 b_f32
              in cosine_f16c_blocks fp (r - 8) (drop 8 ax) (drop 8 bx)
                   (f32_add fp (fst acc) (horizontal_sum fp dot),
                    f32_add fp (fst (snd acc)) (horizontal_sum fp norm_a_sq),
                    f32_add fp (snd (snd acc)) (horizontal_sum fp norm_b_sq)))
      else Some (r, ax, bx, acc))"
  by pat_completeness auto
termination
  by (relation "measure (\<lambda>(fp, r, ax, bx, acc). r)") simp_all

function l1_f16c_blocks ::
    "fpu \<Rightarrow> nat \<Rightarrow> half list \<Rightarrow> half list \<Rightarrow> f32 \<Rightarrow> (nat \<times> half list \<times> half list \<times> f32) option" where
  "l1_f16c_blocks fp r ax bx distance =
     (if 8 \<le> r then
        (if length ax < 8 \<or> length bx < 8 then None
         else let a_f32 = map (cvtph_ps fp) (take 8 ax);
                  b_f32 = map (cvtph_ps fp) (take 8 bx);
                  diff = map2 (f32_sub fp) a_f32 b_f32;
                  abs_diff = map f32_abs diff
              in l1_f16c_blocks fp (r - 8) (drop 8 ax) (drop 8 bx)
                   (f32_add fp distance (horizontal_sum fp abs_diff)))
      else Some (r, ax, bx, distance))"
  by pat_completeness auto
termination
  by (relation "measure (\<lambda>(fp, r, ax, bx, distance). r)") simp_all

declare l2_squared_f16c_blocks.simps [simp del] inner_product_f16c_blocks.simps [simp del]
  cosine_f16c_blocks.simps [simp del] l1_f16c_blocks.simps [simp del]

definition l2_squared_distance_f16c :: "fpu \<Rightarrow> f32 kernel" where
  "l2_squared_distance_f16c fp dim ax bx =
     (case validate_dimensions dim of
        Inl e \<Rightarrow> Some (Inl e)
      | Inr _ \<Rightarrow>
          (case (ax, bx) of
             (Some a, Some b) \<Rightarrow>
               (case l2_squared_f16c_blocks fp (nat dim) a b 0 of
                  None \<Rightarrow> None
                | Some (r, a', b', distance) \<Rightarrow> map_option Inr (l2_squared_loop fp r a' b' distance))
           | _ \<Rightarrow> Some (Inl (InvalidArgument ''Input arrays cannot be null''))))"

definition inner_product_f16c :: "fpu \<Rightarrow> f32 kernel" where
  "inner_product_f16c fp dim ax bx =
     (case validate_dimensions dim of
        Inl e \<Rightarrow> Some (Inl e)
      | Inr _ \<Rightarrow>
          (case (ax, bx) of
             (Some a, Some b) \<Rightarrow>
               (case inner_product_f16c_blocks fp (nat dim) a b 0 of
                  None \<Rightarrow> None
                | Some (r, a', b', result) \<Rightarrow> map_option Inr (inner_product_loop fp r a' b' result))
           | _ \<Rightarrow> Some (Inl (InvalidArgument ''Input arrays cannot be null''))))"

definition cosine_similarity_f16c :: "fpu \<Rightarrow> f64 kernel" where
  "cosine_similarity_f16c fp dim ax bx =
     (case validate_dimensions dim of
        Inl e \<Rightarrow> Some (Inl e)
      | Inr _ \<Rightarrow>
          (case (ax, bx) of
             (Some a, Some b) \<Rightarrow>
               (case cosine_f16c_blocks fp (nat dim) a b (0, 0, 0) of
                  None \<Rightarrow> None
                | Some (r, a', b', acc) \<Rightarrow>
                    (case cosine_loop fp r a' b' acc of
                       None \<Rightarrow> None
                     | Some (dot_product, norm_a, norm_b) \<Rightarrow>
                         if f32_is_zero norm_a \<or> f32_is_zero norm_b
                         then Some (Inl (InvalidArgument ''Cannot compute cosine similarity of zero vectors''))
                         else Some (Inr (f64_div fp (f32_to_f64 fp dot_product)
                                (f32_to_f64 fp (f32_mul fp (f32_sqrt fp norm_a) (f32_sqrt fp norm_b)))))))
           | _ \<Rightarrow> Some (Inl (InvalidArgument ''Input arrays cannot be null''))))"

definition l1_distance_f16c :: "fpu \<Rightarrow> f32 kernel" where
  "l1_distance_f16c fp dim ax bx =
     (case validate_dimensions dim of
        Inl e \<Rightarrow> Some (Inl e)
      | Inr _ \<Rightarrow>
          (case (ax, bx) of
             (Some a, Some b) \<Rightarrow>
               (case l1_f16c_blocks fp (nat dim) a b 0 of
                  None \<Rightarrow> None
                | Some (r, a', b', distance) \<Rightarrow> map_option Inr (l1_loop fp r a' b' distance))
           | _ \<Rightarrow> Some (Inl (InvalidArgument ''Input arrays cannot be null''))))"

subsection \<open>The dispatcher\<close>

text \<open>
  The static members of \<open>HalfDistanceCalculator\<close> (named without the trailing underscore
  of the source).  A \<open>std::function\<close> member is \<open>None\<close> while empty.  Whether the build defines \<open>F16C_SUPPORT\<close>, and what \<open>cpuid\<close> reports, are
  parameters of \<open>initialize\<close>.
\<close>

record calculator =
  l2_squared_distance_func :: "f32 kernel option"
  inner_product_func :: "f32 kernel option"
  cosine_similarity_func :: "f64 kernel option"
  l1_distance_func :: "f32 kernel option"
  initialized :: bool
  has_f16c_support :: bool

definition static_init :: calculator where
  "static_init =
     \<lparr>l2_squared_distance_func = None, inner_product_func = None,
      cosine_similarity_func = None, l1_distance_func = None,
      initialized = False, has_f16c_support = False\<rparr>"

definition detect_cpu_features :: "bool \<Rightarrow> bool \<Rightarrow> calculator \<Rightarrow> calculator" where
  "detect_cpu_features F16C_SUPPORT cpuid_f16c c =
     (if F16C_SUPPORT then c\<lparr>has_f16c_support := cpuid_f16c\<rparr>
      else c\<lparr>has_f16c_support := False\<rparr>)"

definition initialize :: "fpu \<Rightarrow> bool \<Rightarrow> bool \<Rightarrow> calculator \<Rightarrow> calculator" where
  "initialize fp F16C_SUPPORT cpuid_f16c c =
     (if initialized c then c
      else let c = detect_cpu_features F16C_SUPPORT cpuid_f16c c;
               c = (if F16C_SUPPORT \<and> has_f16c_support c
                    then c\<lparr>l2_squared_distance_func := Some (l2_squared_distance_f16c fp),
                           inner_product_func := Some (inner_product_f16c fp),
                           cosine_similarity_func := Some (cosine_similarity_f16c fp),
                           l1_distance_func := Some (l1_distance_f16c fp)\<rparr>
                    else c\<lparr>l2_squared_distance_func := Some (l2_squared_distance_default fp),
                           inner_product_func := Some (inner_product_default fp),
                           cosine_similarity_func := Some (cosine_similarity_default fp),
                           l1_distance_func := Some (l1_distance_default fp)\<rparr>)
           in c\<lparr>initialized := True\<rparr>)"

definition call :: "'r kernel option \<Rightarrow> 'r kernel" where
  "call f dim ax bx = (case f of None \<Rightarrow> Some (Inl BadFunctionCall) | Some k \<Rightarrow> k dim ax bx)"

definition l2_squared_distance :: "calculator \<Rightarrow> f32 kernel" where
  "l2_squared_distance c dim ax bx =
     (if \<not> initialized c
      then Some (Inl (HalfutilsError ''Halfutils not initialized. Call initialize() first.''))
      else call (l2_squared_distance_func c) dim ax bx)"

definition inner_product :: "calculator \<Rightarrow> f32 kernel" where
  "inner_product c dim ax bx =
     (if \<not> initialized c
      then Some (Inl (HalfutilsError ''Halfutils not initialized. Call initialize() first.''))
      else call (inner_product_func c) dim ax bx)"

definition cosine_similarity :: "calculator \<Rightarrow> f64 kernel" where
  "cosine_similarity c dim ax bx =
     (if \<not> initialized c
      then Some (Inl (HalfutilsError ''Halfutils not initialized. Call initialize() first.''))
      else call (cosine_similarity_func c) dim ax bx)"

definition l1_distance :: "calculator \<Rightarrow> f32 kernel" where
  "l1_distance c dim ax bx =
     (if \<not> initialized c
      then Some (Inl (HalfutilsError ''Halfutils not initialized. Call initialize() first.''))
      else call (l1_distance_func c) dim ax bx)"

subsection \<open>Notions used to state the claims\<close>

text \<open>
  \<open>raises_invalid_argument r\<close>: the call threw \<open>std::invalid_argument\<close>.  \<open>squared_norm\<close>
  and \<open>dot_acc\<close> are the single-precision sums the cosine kernel accumulates, element by
  element from \<open>0.0f\<close>.
\<close>

definition raises_invalid_argument :: "(error + 'r) option \<Rightarrow> bool" where
  "raises_invalid_argument r =
     (case r of Some (Inl (InvalidArgument msg)) \<Rightarrow> True | _ \<Rightarrow> False)"



section \<open>Claims about the half-vector kernels and the dispatcher\<close>

lemma validate_dimensions_bad:
  "dim \<le> 0 \<or> 16000 < dim \<Longrightarrow> \<exists>msg. validate_dimensions dim = Inl (InvalidArgument msg)"
  by (auto simp: validate_dimensions_def max_dimensions_def HALFVEC_MAX_DIM_def)

lemma validate_dimensions_cases:
  "(\<exists>msg. validate_dimensions dim = Inl (InvalidArgument msg)) \<or> validate_dimensions dim = Inr ()"
  by (simp add: validate_dimensions_def)

lemma validate_dimensions_ok:
  "0 < dim \<Longrightarrow> dim \<le> 16000 \<Longrightarrow> validate_dimensions dim = Inr ()"
  by (simp add: validate_dimensions_def max_dimensions_def HALFVEC_MAX_DIM_def)

lemma kernel_guard:
  assumes "dim \<le> 0 \<or> 16000 < dim \<or> ax = None \<or> bx = None"
  shows "\<exists>msg. \<forall>f. (case validate_dimensions dim of
            Inl e \<Rightarrow> Some (Inl e)
          | Inr u \<Rightarrow> (case (ax, bx) of (Some a, Some b) \<Rightarrow> f a b
                      | _ \<Rightarrow> Some (Inl (InvalidArgument m)))) = Some (Inl (InvalidArgument msg))"
proof (cases "dim \<le> 0 \<or> 16000 < dim")
  case True
  then obtain msg where "validate_dimensions dim = Inl (InvalidArgument msg)"
    using validate_dimensions_bad by blast
  then show ?thesis by simp
next
  case False
  then have v: "validate_dimensions dim = Inr ()" by (simp add: validate_dimensions_ok)
  from False assms have "ax = None \<or> bx = None" by simp
  then show ?thesis by (auto simp: v split: option.splits)
qed

lemma kernels_guard_all:
  assumes "dim \<le> 0 \<or> 16000 < dim \<or> ax = None \<or> bx = None"
  shows "\<exists>msg. \<forall>fp.
       l2_squared_distance_default fp dim ax bx = Some (Inl (InvalidArgument msg))
     \<and> inner_product_default fp dim ax bx = Some (Inl (InvalidArgument msg))
     \<and> cosine_similarity_default fp dim ax bx = Some (Inl (InvalidArgument msg))
     \<and> l1_distance_default fp dim ax bx = Some (Inl (InvalidArgument msg))
     \<and> l2_squared_distance_f16c fp dim ax bx = Some (Inl (InvalidArgument msg))
     \<and> inner_product_f16c fp dim ax bx = Some (Inl (InvalidArgument msg))
     \<and> cosine_similarity_f16c fp dim ax bx = Some (Inl (InvalidArgument msg))
     \<and> l1_distance_f16c fp dim ax bx = Some (Inl (InvalidArgument msg))"
proof -
  obtain msg where "\<forall>f. (case validate_dimensions dim of
            Inl e \<Rightarrow> Some (Inl e)
          | Inr u \<Rightarrow> (case (ax, bx) of (Some a, Some b) \<Rightarrow> f a b
                      | _ \<Rightarrow> Some (Inl (InvalidArgument ''Input arrays cannot be null'')))) =
          (Some (Inl (InvalidArgument msg)) :: (error + f32) option)"
    using kernel_guard[OF assms] by blast
  then have M: "\<And>f. (case validate_dimensions dim of
            Inl e \<Rightarrow> Some (Inl e)
          | Inr u \<Rightarrow> (case (ax, bx) of (Some a, Some b) \<Rightarrow> f a b
                      | _ \<Rightarrow> Some (Inl (InvalidArgument ''Input arrays cannot be null'')))) =
          (Some (Inl (InvalidArgument msg)) :: (error + f32) option)"
    by blast
  have M64: "(case validate_dimensions dim of
            Inl e \<Rightarrow> Some (Inl e)
          | Inr u \<Rightarrow> (case (ax, bx) of (Some a, Some b) \<Rightarrow> f a b
                      | _ \<Rightarrow> Some (Inl (InvalidArgument ''Input arrays cannot be null'')))) =
          (Some (Inl (InvalidArgument msg)) :: (error + f64) option)" for f
    using M[of "\<lambda>a b. None"] assms
    by (auto split: sum.splits option.splits)
  have "l2_squared_distance_default fp dim ax bx = Some (Inl (InvalidArgument msg))" for fp
    unfolding l2_squared_distance_default_def by (rule M)
  moreover have "inner_product_default fp dim ax bx = Some (Inl (InvalidArgument msg))" for fp
    unfolding inner_product_default_def by (rule M)
  moreover have "cosine_similarity_default fp dim ax bx = Some (Inl (InvalidArgument msg))" for fp
    unfolding cosine_similarity_default_def by (rule M64)
  moreover have "l1_distance_default fp dim ax bx = Some (Inl (InvalidArgument msg))" for fp
    unfolding l1_distance_default_def by (rule M)
  moreover have "l2_squared_distance_f16c fp dim ax bx = Some (Inl (InvalidArgument msg))" for fp
    unfolding l2_squared_distance_f16c_def by (rule M)
  moreover have "inner_product_f16c fp dim ax bx = Some (Inl (InvalidArgument msg))" for fp
    unfolding inner_product_f16c_def by (rule M)
  moreover have "cosine_similarity_f16c fp dim ax bx = Some (Inl (InvalidArgument msg))" for fp
    unfolding cosine_similarity_f16c_def by (rule M64)
  moreover have "l1_distance_f16c fp dim ax bx = Some (Inl (InvalidArgument msg))" for fp
    unfolding l1_distance_f16c_def by (rule M)
  ultimately show ?thesis by blast
qed

lemma entry_points_after_initialize:
  assumes "\<not> initialized c"
  shows "l2_squared_distance (initialize fp F cpu c) dim ax bx =
           (if F \<and> cpu then l2_squared_distance_f16c fp dim ax bx
            else l2_squared_distance_default fp dim ax bx)"
    and "inner_product (initialize fp F cpu c) dim ax bx =
           (if F \<and> cpu then inner_product_f16c fp dim ax bx
            else inner_product_default fp dim ax bx)"
    and "cosine_similarity (initialize fp F cpu c) dim ax bx =
           (if F \<and> cpu then cosine_similarity_f16c fp dim ax bx
            else cosine_similarity_default fp dim ax bx)"
    and "l1_distance (initialize fp F cpu c) dim ax bx =
           (if F \<and> cpu then l1_distance_f16c fp dim ax bx
            else l1_distance_default fp dim ax bx)"
  using assms
  by (simp_all add: l2_squared_distance_def inner_product_def cosine_similarity_def
        l1_distance_def initialize_def detect_cpu_features_def call_def Let_def)

lemma initialize_idempotent:
  "initialize fp' F' cpu' (initialize fp F cpu c) = initialize fp F cpu c"
  by (simp add: initialize_def Let_def)

lemma initialized_initialize: "initialized (initialize fp F cpu c)"
  by (simp add: initialize_def Let_def)

text \<open>
  Claim C5.  Each of the four half-vector kernels, in its scalar and in its F16C variant,
  throws \<open>std::invalid_argument\<close> when \<open>dim\<close> is not positive, when it is above 16000,
  and when either pointer is null.  The throw comes before the loop: what is thrown is the
  same whatever the floating-point operations would compute, and nothing else is returned.
  The same holds of the four public entry points once \<open>initialize\<close> has bound them.
\<close>

theorem kernels_reject_invalid_arguments:
  assumes "dim \<le> 0 \<or> 16000 < dim \<or> ax = None \<or> bx = None"
  shows "raises_invalid_argument (l2_squared_distance_default fp dim ax bx)
     \<and> raises_invalid_argument (inner_product_default fp dim ax bx)
     \<and> raises_invalid_argument (cosine_similarity_default fp dim ax bx)
     \<and> raises_invalid_argument (l1_distance_default fp dim ax bx)
     \<and> raises_invalid_argument (l2_squared_distance_f16c fp dim ax bx)
     \<and> raises_invalid_argument (inner_product_f16c fp dim ax bx)
     \<and> raises_invalid_argument (cosine_similarity_f16c fp dim ax bx)
     \<and> raises_invalid_argument (l1_distance_f16c fp dim ax bx)
     \<and> l2_squared_distance_default fp dim ax bx = l2_squared_distance_default fp' dim ax bx
     \<and> inner_product_default fp dim ax bx = inner_product_default fp' dim ax bx
     \<and> cosine_similarity_default fp dim ax bx = cosine_similarity_default fp' dim ax bx
     \<and> l1_distance_default fp dim ax bx = l1_distance_default fp' dim ax bx
     \<and> l2_squared_distance_f16c fp dim ax bx = l2_squared_distance_f16c fp' dim ax bx
     \<and> inner_product_f16c fp dim ax bx = inner_product_f16c fp' dim ax bx
     \<and> cosine_similarity_f16c fp dim ax bx = cosine_similarity_f16c fp' dim ax bx
     \<and> l1_distance_f16c fp dim ax bx = l1_distance_f16c fp' dim ax bx
     \<and> (\<not> initialized c \<longrightarrow>
          raises_invalid_argument (l2_squared_distance (initialize fp F cpu c) dim ax bx)
          \<and> raises_invalid_argument (inner_product (initialize fp F cpu c) dim ax bx)
          \<and> raises_invalid_argument (cosine_similarity (initialize fp F cpu c) dim ax bx)
          \<and> raises_invalid_argument (l1_distance (initialize fp F cpu c) dim ax bx))"
proof -
  obtain msg where K: "\<And>fp.
       l2_squared_distance_default fp dim ax bx = Some (Inl (InvalidArgument msg))
     \<and> inner_product_default fp dim ax bx = Some (Inl (InvalidArgument msg))
     \<and> cosine_similarity_default fp dim ax bx = Some (Inl (InvalidArgument msg))
     \<and> l1_distance_default fp dim ax bx = Some (Inl (InvalidArgument msg))
     \<and> l2_squared_distance_f16c fp dim ax bx = Some (Inl (InvalidArgument msg))
     \<and> inner_product_f16c fp dim ax bx = Some (Inl (InvalidArgument msg))
     \<and> cosine_similarity_f16c fp dim ax bx = Some (Inl (InvalidArgument msg))
     \<and> l1_distance_f16c fp dim ax bx = Some (Inl (InvalidArgument msg))"
    using kernels_guard_all[OF assms] by blast
  have R: "raises_invalid_argument (Some (Inl (InvalidArgument msg)) :: (error + 'r) option)"
    by (simp add: raises_invalid_argument_def)
  show ?thesis
    by (intro conjI impI)
       (simp_all add: K R entry_points_after_initialize)
qed

theorem kernels_reject_invalid_arguments_witness:
  "\<forall>fp. raises_invalid_argument (l2_squared_distance_default fp 0 (Some []) (Some []))
       \<and> raises_invalid_argument (inner_product_default fp 16001 (Some [0]) (Some [0]))
       \<and> raises_invalid_argument (cosine_similarity_default fp 3 None (Some [1, 2, 3]))
       \<and> raises_invalid_argument (l1_distance_f16c fp (- 1) (Some [1]) None)
       \<and> \<not> initialized static_init
       \<and> raises_invalid_argument
            (l2_squared_distance (initialize fp True True static_init) 3 (Some [1, 2, 3]) None)
       \<and> l2_squared_distance_default fp 0 (Some []) (Some []) =
            Some (Inl (InvalidArgument ''Dimensions must be positive''))
       \<and> inner_product_default fp 16001 (Some [0]) (Some [0]) =
            Some (Inl (InvalidArgument ''Dimensions exceed maximum allowed''))
       \<and> cosine_similarity_default fp 3 None (Some [1, 2, 3]) =
            Some (Inl (InvalidArgument ''Input arrays cannot be null''))"
proof
  fix fp
  have n: "\<not> initialized static_init" by (simp add: static_init_def)
  have "raises_invalid_argument (l2_squared_distance_default fp 0 (Some []) (Some []))"
    using kernels_reject_invalid_arguments [of 0 "Some []" "Some []" fp fp static_init True True]
    by simp
  moreover have "raises_invalid_argument (inner_product_default fp 16001 (Some [0]) (Some [0]))"
    using kernels_reject_invalid_arguments [of 16001 "Some [0]" "Some [0]" fp fp static_init True True]
    by simp
  moreover have "raises_invalid_argument (cosine_similarity_default fp 3 None (Some [1, 2, 3]))"
    using kernels_reject_invalid_arguments [of 3 None "Some [1, 2, 3]" fp fp static_init True True]
    by simp
  moreover have "raises_invalid_argument (l1_distance_f16c fp (- 1) (Some [1]) None)"
    using kernels_reject_invalid_arguments [of "- 1" "Some [1]" None fp fp static_init True True]
    by simp
  moreover have "raises_invalid_argument
            (l2_squared_distance (initialize fp True True static_init) 3 (Some [1, 2, 3]) None)"
    using kernels_reject_invalid_arguments [of 3 "Some [1, 2, 3]" None fp fp static_init True True] n
    by simp
  moreover have "l2_squared_distance_default fp 0 (Some []) (Some []) =
            Some (Inl (InvalidArgument ''Dimensions must be positive''))"
    by (simp add: l2_squared_distance_default_def validate_dimensions_def)
  moreover have "inner_product_default fp 16001 (Some [0]) (Some [0]) =
            Some (Inl (InvalidArgument ''Dimensions exceed maximum allowed''))"
    by (simp add: inner_product_default_def validate_dimensions_def max_dimensions_def HALFVEC_MAX_DIM_def)
  moreover have "cosine_similarity_default fp 3 None (Some [1, 2, 3]) =
            Some (Inl (InvalidArgument ''Input arrays cannot be null''))"
    by (simp add: cosine_similarity_default_def validate_dimensions_def max_dimensions_def HALFVEC_MAX_DIM_def)
  ultimately show "raises_invalid_argument (l2_squared_distance_default fp 0 (Some []) (Some []))
       \<and> raises_invalid_argument (inner_product_default fp 16001 (Some [0]) (Some [0]))
       \<and> raises_invalid_argument (cosine_similarity_default fp 3 None (Some [1, 2, 3]))
       \<and> raises_invalid_argument (l1_distance_f16c fp (- 1) (Some [1]) None)
       \<and> \<not> initialized static_init
       \<and> raises_invalid_argument
            (l2_squared_distance (initialize fp True True static_init) 3 (Some [1, 2, 3]) None)
       \<and> l2_squared_distance_default fp 0 (Some []) (Some []) =
            Some (Inl (InvalidArgument ''Dimensions must be positive''))
       \<and> inner_product_default fp 16001 (Some [0]) (Some [0]) =
            Some (Inl (InvalidArgument ''Dimensions exceed maximum allowed''))
       \<and> cosine_similarity_default fp 3 None (Some [1, 2, 3]) =
            Some (Inl (InvalidArgument ''Input arrays cannot be null''))"
    using n by simp
qed

text \<open>
  Claim C9.  Each of the four public entry points, called while the dispatcher is not
  initialized (as it is at program start), throws \<open>HalfutilsError\<close> and computes nothing;
  \<open>initialize\<close> leaves the dispatcher initialized, and a second call of \<open>initialize\<close>,
  whatever it would detect, changes nothing: the bindings stay as the first call chose them.
\<close>

theorem uninitialized_calls_are_diagnosed:
  "(\<not> initialized c \<longrightarrow>
      l2_squared_distance c dim ax bx =
        Some (Inl (HalfutilsError ''Halfutils not initialized. Call initialize() first.''))
    \<and> inner_product c dim ax bx =
        Some (Inl (HalfutilsError ''Halfutils not initialized. Call initialize() first.''))
    \<and> cosine_similarity c dim ax bx =
        Some (Inl (HalfutilsError ''Halfutils not initialized. Call initialize() first.''))
    \<and> l1_distance c dim ax bx =
        Some (Inl (HalfutilsError ''Halfutils not initialized. Call initialize() first.'')))
   \<and> \<not> initialized static_init
   \<and> initialized (initialize fp F cpu c)
   \<and> initialize fp' F' cpu' (initialize fp F cpu c) = initialize fp F cpu c"
  by (intro conjI impI)
     (simp_all add: l2_squared_distance_def inner_product_def cosine_similarity_def
        l1_distance_def initialize_idempotent initialized_initialize static_init_def)

theorem uninitialized_calls_are_diagnosed_witness:
  "\<forall>fp fp'. \<not> initialized static_init
     \<and> l2_squared_distance static_init 3 (Some [1, 2, 3]) (Some [1, 2, 3]) =
          Some (Inl (HalfutilsError ''Halfutils not initialized. Call initialize() first.''))
     \<and> cosine_similarity static_init 0 None None =
          Some (Inl (HalfutilsError ''Halfutils not initialized. Call initialize() first.''))
     \<and> initialize fp' True True (initialize fp False False static_init) =
          initialize fp False False static_init
     \<and> l2_squared_distance_func (initialize fp' True True (initialize fp False False static_init)) =
          Some (l2_squared_distance_default fp)"
proof (intro allI)
  fix fp fp'
  have n: "\<not> initialized static_init" by (simp add: static_init_def)
  note T = uninitialized_calls_are_diagnosed
  have "l2_squared_distance static_init 3 (Some [1, 2, 3]) (Some [1, 2, 3]) =
          Some (Inl (HalfutilsError ''Halfutils not initialized. Call initialize() first.''))"
    using T [of static_init 3 "Some [1, 2, 3]" "Some [1, 2, 3]" fp False False fp' True True] n by simp
  moreover have "cosine_similarity static_init 0 None None =
          Some (Inl (HalfutilsError ''Halfutils not initialized. Call initialize() first.''))"
    using T [of static_init 0 None None fp False False fp' True True] n by simp
  moreover have I: "initialize fp' True True (initialize fp False False static_init) =
          initialize fp False False static_init"
    using T [of static_init 0 None None fp False False fp' True True] by simp
  moreover have "l2_squared_distance_func (initialize fp False False static_init) =
          Some (l2_squared_distance_default fp)"
    by (simp add: initialize_def detect_cpu_features_def static_init_def Let_def)
  ultimately show "\<not> initialized static_init
     \<and> l2_squared_distance static_init 3 (Some [1, 2, 3]) (Some [1, 2, 3]) =
          Some (Inl (HalfutilsError ''Halfutils not initialized. Call initialize() first.''))
     \<and> cosine_similarity static_init 0 None None =
          Some (Inl (HalfutilsError ''Halfutils not initialized. Call initialize() first.''))
     \<and> initialize fp' True True (initialize fp False False static_init) =
          initialize fp False False static_init
     \<and> l2_squared_distance_func (initialize fp' True True (initialize fp False False static_init)) =
          Some (l2_squared_distance_default fp)"
    using n by simp
qed

section \<open>Claim about the cosine kernel\<close>








section \<open>Claims about the half-precision codec\<close>

text \<open>
  \<open>floatToHalf_spec\<close> is the encoder as the specification words it, on the bit patterns
  read as natural numbers: the sign is bit 31, the biased exponent bits 23 to 30, the
  mantissa bits 0 to 22 of the source; the result is \<open>sign * 2 ^ 15 + exponent * 2 ^ 10 +
  mantissa\<close> of the half.
\<close>

definition floatToHalf_spec :: "nat \<Rightarrow> nat" where
  "floatToHalf_spec f =
     (let sign = f div 2 ^ 31;
          e = f div 2 ^ 23 mod 256;
          m = f mod 2 ^ 23
      in if e = 255 then sign * 2 ^ 15 + 31 * 2 ^ 10 + (if m \<noteq> 0 then 1 else 0)
         else if 31 + 127 \<le> e + 15 then sign * 2 ^ 15 + 31 * 2 ^ 10
         else if e + 15 \<le> 127 then sign * 2 ^ 15
         else let e' = e + 15 - 127;
                  m' = m div 2 ^ 13 + m div 2 ^ 12 mod 2
              in if m' = 2 ^ 10
                 then (if e' + 1 = 31 then sign * 2 ^ 15 + 31 * 2 ^ 10
                       else sign * 2 ^ 15 + (e' + 1) * 2 ^ 10)
                 else sign * 2 ^ 15 + e' * 2 ^ 10 + m')"

subsection \<open>From word operations to arithmetic\<close>

lemma unat_and_mask_u32: "unat ((w :: u32) AND mask n) = unat w mod 2 ^ n"
proof -
  have "unat (w AND mask n) = unat (take_bit n w)" by (simp only: take_bit_eq_mask)
  also have "\<dots> = take_bit n (unat w)" by (rule unsigned_take_bit_eq)
  also have "\<dots> = unat w mod 2 ^ n" by (rule take_bit_eq_mod)
  finally show ?thesis .
qed

lemma unat_and_mask_u16: "unat ((w :: u16) AND mask n) = unat w mod 2 ^ n"
proof -
  have "unat (w AND mask n) = unat (take_bit n w)" by (simp only: take_bit_eq_mask)
  also have "\<dots> = take_bit n (unat w)" by (rule unsigned_take_bit_eq)
  also have "\<dots> = unat w mod 2 ^ n" by (rule take_bit_eq_mod)
  finally show ?thesis .
qed

lemma mask_numerals_u32:
  "(0x1 :: u32) = mask 1" "(0xff :: u32) = mask 8" "(0x7fffff :: u32) = mask 23"
  by (simp_all add: mask_eq_exp_minus_1)

lemma mask_numerals_u16:
  "(0x0001 :: u16) = mask 1" "(0x001f :: u16) = mask 5" "(0x03ff :: u16) = mask 10"
  by (simp_all add: mask_eq_exp_minus_1)

lemma f32_sign_field: "unat (drop_bit 31 (f :: u32) AND 0x1) = unat f div 2 ^ 31"
proof -
  have "unat f < 2 ^ 32" using unsigned_less[of f, where 'a=nat] by simp
  then have "unat f div 2 ^ 31 < 2" by (simp add: less_mult_imp_div_less)
  moreover have "unat (drop_bit 31 f) = unat f div 2 ^ 31"
    by (simp only: unat_drop_bit_eq) (rule drop_bit_eq_div)
  ultimately show ?thesis
    by (simp only: mask_numerals_u32 unat_and_mask_u32) simp
qed

lemma f32_exponent_field: "unat (drop_bit 23 (f :: u32) AND 0xff) = unat f div 2 ^ 23 mod 256"
proof -
  have "unat (drop_bit 23 f) = unat f div 2 ^ 23"
    by (simp only: unat_drop_bit_eq) (rule drop_bit_eq_div)
  then show ?thesis
    by (simp only: mask_numerals_u32 unat_and_mask_u32) simp
qed

lemma f32_mantissa_field: "unat ((f :: u32) AND 0x7fffff) = unat f mod 2 ^ 23"
  by (simp only: mask_numerals_u32 unat_and_mask_u32)

lemma or_push_bit_nat: "y < 2 ^ n \<Longrightarrow> push_bit n x OR y = push_bit n x + (y :: nat)"
proof -
  assume "y < 2 ^ n"
  then have y: "take_bit n y = y" by (rule take_bit_nat_eq_self)
  have "\<not> bit (push_bit n x) i \<or> \<not> bit y i" for i
  proof (cases "i < n")
    case True
    then show ?thesis by (simp add: bit_push_bit_iff)
  next
    case False
    then have "\<not> bit (take_bit n y) i" by (simp add: bit_take_bit_iff)
    then show ?thesis by (simp add: y)
  qed
  then show ?thesis by (rule disjunctive_add [symmetric])
qed

lemma half_compose:
  assumes "unat s < 2" and "unat e < 32" and "unat m < 1024"
  shows "unat (ucast (push_bit 15 (s :: u32) OR push_bit 10 (e :: u32) OR (m :: u32)) :: u16) =
         unat s * 2 ^ 15 + unat e * 2 ^ 10 + unat m"
proof -
  have em: "push_bit 10 (unat e) OR unat m = unat e * 2 ^ 10 + unat m"
    using or_push_bit_nat[of "unat m" 10 "unat e"] assms(3) by (simp add: push_bit_eq_mult)
  have "unat e * 2 ^ 10 + unat m < 2 ^ 15" using assms(2,3) by simp
  then have sem: "push_bit 15 (unat s) OR (unat e * 2 ^ 10 + unat m) =
      unat s * 2 ^ 15 + (unat e * 2 ^ 10 + unat m)"
    using or_push_bit_nat[of "unat e * 2 ^ 10 + unat m" 15 "unat s"] by (simp add: push_bit_eq_mult)
  have ps: "take_bit 32 (push_bit 15 (unat s)) = push_bit 15 (unat s)"
    using assms(1) by (simp add: take_bit_nat_eq_self push_bit_eq_mult)
  have pe: "take_bit 32 (push_bit 10 (unat e)) = push_bit 10 (unat e)"
    using assms(2) by (simp add: take_bit_nat_eq_self push_bit_eq_mult)
  have "unat (push_bit 15 s OR push_bit 10 e OR m) =
        push_bit 15 (unat s) OR (push_bit 10 (unat e) OR unat m)"
    by (simp add: unsigned_or_eq unsigned_push_bit_eq ps pe or.assoc)
  also have "\<dots> = unat s * 2 ^ 15 + unat e * 2 ^ 10 + unat m"
    by (simp only: em sem add.assoc)
  finally have U: "unat (push_bit 15 s OR push_bit 10 e OR m) =
        unat s * 2 ^ 15 + unat e * 2 ^ 10 + unat m" .
  have "unat s * 2 ^ 15 + unat e * 2 ^ 10 + unat m < 2 ^ 16" using assms by simp
  then show ?thesis
    by (simp add: unsigned_ucast_eq U take_bit_nat_eq_self)
qed

lemma uint_small: "unat (x :: u32) < 256 \<Longrightarrow> uint x < 256"
  by (simp only: uint_nat)

lemma sint_rebias:
  assumes "unat (x :: u32) < 256"
  shows "sint (x - 127 + 15) = uint x - 112"
proof -
  have b: "uint x < 256" using assms by (rule uint_small)
  have e: "x - 127 + 15 = word_of_int (uint x - 112)"
    by (simp add: wi_hom_sub [symmetric])
  have "sint (word_of_int (uint x - 112) :: u32) =
        (uint x - 112 + 2 ^ 31) mod 2 ^ 32 - 2 ^ 31"
    using int_word_sint [of "uint x - 112", where 'a=32] by simp
  also have "\<dots> = uint x - 112"
  proof -
    have "0 \<le> uint x - 112 + 2 ^ 31" and "uint x - 112 + 2 ^ 31 < 2 ^ 32"
      using b by simp_all
    then have "(uint x - 112 + 2 ^ 31) mod 2 ^ 32 = uint x - 112 + 2 ^ 31"
      by (rule mod_pos_pos_trivial)
    then show ?thesis by (simp only:)
  qed
  finally show ?thesis by (simp only: e)
qed

lemma rebias_overflow:
  assumes "unat (x :: u32) < 256"
  shows "31 \<le>s x - 127 + 15 \<longleftrightarrow> 143 \<le> unat x"
proof -
  have "31 \<le>s x - 127 + 15 \<longleftrightarrow> 31 \<le> uint x - 112"
    by (simp only: word_sle_eq sint_rebias[OF assms]) simp
  also have "\<dots> \<longleftrightarrow> 143 \<le> unat x" using uint_nat[of x] by linarith
  finally show ?thesis .
qed

lemma rebias_underflow:
  assumes "unat (x :: u32) < 256"
  shows "x - 127 + 15 \<le>s 0 \<longleftrightarrow> unat x \<le> 112"
proof -
  have "x - 127 + 15 \<le>s 0 \<longleftrightarrow> uint x - 112 \<le> 0"
    by (simp only: word_sle_eq sint_rebias[OF assms]) simp
  also have "\<dots> \<longleftrightarrow> unat x \<le> 112" using uint_nat[of x] by linarith
  finally show ?thesis .
qed

lemma unat_rebias:
  assumes "112 \<le> unat (x :: u32)"
  shows "unat (x - 127 + 15) = unat x - 112"
proof -
  have e: "x - 127 + 15 = x - 112" by simp
  have "(112 :: u32) \<le> x" using assms by (simp add: word_le_nat_alt)
  then have "unat (x - 112) = unat x - unat (112 :: u32)" by (rule unat_sub)
  then show ?thesis by (simp add: e)
qed

lemma bit12_test: "((m :: u32) AND 0x1000 \<noteq> 0) \<longleftrightarrow> unat m div 2 ^ 12 mod 2 = 1"
proof -
  have "(0x1000 :: u32) = 2 ^ 12" by simp
  then have "(m AND 0x1000 \<noteq> 0) \<longleftrightarrow> bit m 12"
    by (simp only: and_exp_eq_0_iff_not_bit) simp
  also have "\<dots> \<longleftrightarrow> bit (unat m) 12" by (simp add: bit_unsigned_iff)
  also have "\<dots> \<longleftrightarrow> unat m div 2 ^ 12 mod 2 = 1"
    by (simp add: bit_iff_odd odd_iff_mod_2_eq_one)
  finally show ?thesis .
qed

lemma unat_new_mantissa:
  assumes "unat (m :: u32) < 2 ^ 23"
  shows "unat (ucast (drop_bit 13 m) :: u16) = unat m div 2 ^ 13"
proof -
  have d: "unat (drop_bit 13 m) = unat m div 2 ^ 13"
    by (simp only: unat_drop_bit_eq) (rule drop_bit_eq_div)
  have "unat m div 2 ^ 13 < 2 ^ 16" using assms by (simp add: less_mult_imp_div_less)
  then show ?thesis
    by (simp add: unsigned_ucast_eq d take_bit_nat_eq_self)
qed

lemma unat_succ_u16:
  assumes "unat (n :: u16) < 1024"
  shows "unat (n + 1) = unat n + 1"
proof -
  have "unat (n + 1) = (unat n + 1) mod 2 ^ 16" by (simp add: unat_word_ariths)
  also have "\<dots> = unat n + 1" using assms by simp
  finally show ?thesis .
qed

lemma unat_succ_u32:
  assumes "unat (n :: u32) < 1024"
  shows "unat (n + 1) = unat n + 1"
proof -
  have "unat (n + 1) = (unat n + 1) mod 2 ^ 32" by (simp add: unat_word_ariths)
  also have "\<dots> = unat n + 1" using assms by simp
  finally show ?thesis .
qed

lemma unat_ucast_u16_u32: "unat (ucast (n :: u16) :: u32) = unat n"
proof -
  have "unat n < 2 ^ 16" using unsigned_less[of n, where 'a=nat] by simp
  then have "unat n < 2 ^ 32" by simp
  then show ?thesis by (simp add: unsigned_ucast_eq take_bit_nat_eq_self)
qed

lemma half_inf_compose:
  assumes "unat (s :: u32) < 2"
  shows "unat (ucast (push_bit 15 s OR 0x7c00) :: u16) = unat s * 2 ^ 15 + 31 * 2 ^ 10"
proof -
  have "(0x7c00 :: u32) = push_bit 10 31" by simp
  then have "push_bit 15 s OR 0x7c00 = push_bit 15 s OR push_bit 10 31 OR 0" by simp
  then show ?thesis
    using half_compose[of s 31 0] assms by simp
qed

lemma half_nan_compose:
  assumes "unat (s :: u32) < 2" and "unat (m :: u32) < 1024"
  shows "unat (ucast (push_bit 15 s OR 0x7c00 OR m) :: u16) = unat s * 2 ^ 15 + 31 * 2 ^ 10 + unat m"
proof -
  have "(0x7c00 :: u32) = push_bit 10 31" by simp
  then have "push_bit 15 s OR 0x7c00 OR m = push_bit 15 s OR push_bit 10 31 OR m" by simp
  then show ?thesis
    using half_compose[of s 31 m] assms by simp
qed

lemma half_zero_compose:
  assumes "unat (s :: u32) < 2"
  shows "unat (ucast (push_bit 15 s) :: u16) = unat s * 2 ^ 15"
proof -
  have "push_bit 15 s = push_bit 15 s OR push_bit 10 0 OR 0" by simp
  then show ?thesis
    using half_compose[of s 0 0] assms by simp
qed

lemma float_to_half_manual_unat:
  "unat (float_to_half_manual f) = floatToHalf_spec (unat f)"
proof -
  define sign :: u32 where "sign = drop_bit 31 f AND 0x1"
  define exponent :: u32 where "exponent = drop_bit 23 f AND 0xff"
  define mantissa :: u32 where "mantissa = f AND 0x7fffff"
  define S where "S = unat f div 2 ^ 31"
  define E where "E = unat f div 2 ^ 23 mod 256"
  define M where "M = unat f mod 2 ^ 23"
  define nm :: u16 where "nm = ucast (drop_bit 13 mantissa)"
  define ne :: u32 where "ne = exponent - 127 + 15"
  have sS: "unat sign = S" by (simp only: sign_def S_def f32_sign_field)
  have eE: "unat exponent = E" by (simp only: exponent_def E_def f32_exponent_field)
  have mM: "unat mantissa = M" by (simp only: mantissa_def M_def f32_mantissa_field)
  have "unat f < 2 ^ 32" using unsigned_less[of f, where 'a=nat] by simp
  then have S2: "S < 2" by (simp add: S_def less_mult_imp_div_less)
  have E256: "E < 256" by (simp add: E_def)
  have M23: "M < 2 ^ 23" by (simp add: M_def)
  have s2: "unat sign < 2" using sS S2 by simp
  have e256: "unat exponent < 256" using eE E256 by simp
  have F: "float_to_half_manual f =
     (if exponent = 255 then
           ucast (push_bit 15 sign OR 0x7c00 OR (if mantissa \<noteq> 0 then 1 else 0))
      else if 31 \<le>s ne then ucast (push_bit 15 sign OR 0x7c00)
      else if ne \<le>s 0 then ucast (push_bit 15 sign)
      else if mantissa AND 0x1000 \<noteq> 0 then
             (if nm + 1 = 0x400 then
                (if ne + 1 = 31 then ucast (push_bit 15 sign OR 0x7c00)
                 else ucast (push_bit 15 sign OR push_bit 10 (ne + 1) OR ucast (0 :: u16)))
              else ucast (push_bit 15 sign OR push_bit 10 ne OR ucast (nm + 1)))
           else ucast (push_bit 15 sign OR push_bit 10 ne OR ucast nm))"
    unfolding float_to_half_manual_def sign_def exponent_def mantissa_def nm_def ne_def Let_def
    by (rule refl)
  have G: "floatToHalf_spec (unat f) =
     (if E = 255 then S * 2 ^ 15 + 31 * 2 ^ 10 + (if M \<noteq> 0 then 1 else 0)
      else if 31 + 127 \<le> E + 15 then S * 2 ^ 15 + 31 * 2 ^ 10
      else if E + 15 \<le> 127 then S * 2 ^ 15
      else if (M div 2 ^ 13 + M div 2 ^ 12 mod 2) = 2 ^ 10
           then (if E + 15 - 127 + 1 = 31 then S * 2 ^ 15 + 31 * 2 ^ 10
                 else S * 2 ^ 15 + (E + 15 - 127 + 1) * 2 ^ 10)
           else S * 2 ^ 15 + (E + 15 - 127) * 2 ^ 10 + (M div 2 ^ 13 + M div 2 ^ 12 mod 2))"
    unfolding floatToHalf_spec_def S_def E_def M_def Let_def
    by (rule refl)
  have c1: "exponent = 255 \<longleftrightarrow> E = 255"
    using eE by (simp add: word_unat_eq_iff)
  have c2: "31 \<le>s ne \<longleftrightarrow> 143 \<le> E"
    unfolding ne_def using rebias_overflow[OF e256] eE by simp
  have c3: "ne \<le>s 0 \<longleftrightarrow> E \<le> 112"
    unfolding ne_def using rebias_underflow[OF e256] eE by simp
  have c4: "mantissa AND 0x1000 \<noteq> 0 \<longleftrightarrow> M div 2 ^ 12 mod 2 = 1"
    using bit12_test[of mantissa] mM by simp
  have nmM: "unat nm = M div 2 ^ 13"
    unfolding nm_def using unat_new_mantissa[of mantissa] mM M23 by simp
  have nm10: "unat nm < 1024"
    using M23 by (simp add: nmM less_mult_imp_div_less)
  have nm1: "unat (nm + 1) = M div 2 ^ 13 + 1"
    using unat_succ_u16[OF nm10] nmM by simp
  have c5: "nm + 1 = 0x400 \<longleftrightarrow> M div 2 ^ 13 + 1 = 1024"
    using nm1 by (simp add: word_unat_eq_iff)
  have m0: "mantissa \<noteq> 0 \<longleftrightarrow> M \<noteq> 0"
    using mM by (simp add: word_unat_eq_iff)
  show ?thesis
  proof (cases "E = 255")
    case True
    have L: "float_to_half_manual f =
        ucast (push_bit 15 sign OR 0x7c00 OR (if mantissa \<noteq> 0 then 1 else 0))"
      using True by (simp add: F c1)
    have R: "floatToHalf_spec (unat f) = S * 2 ^ 15 + 31 * 2 ^ 10 + (if M \<noteq> 0 then 1 else 0)"
      using True by (simp add: G)
    have "unat (if mantissa \<noteq> 0 then 1 else 0 :: u32) < 1024" by simp
    then have "unat (ucast (push_bit 15 sign OR 0x7c00 OR (if mantissa \<noteq> 0 then 1 else 0)) :: u16) =
       S * 2 ^ 15 + 31 * 2 ^ 10 + (if M \<noteq> 0 then 1 else 0)"
      using half_nan_compose[OF s2, of "if mantissa \<noteq> 0 then 1 else 0"] sS m0 by simp
    then show ?thesis by (simp only: L R)
  next
    case n255: False
    show ?thesis
    proof (cases "143 \<le> E")
      case True
      have L: "float_to_half_manual f = ucast (push_bit 15 sign OR 0x7c00)"
        using n255 True by (simp add: F c1 c2)
      have R: "floatToHalf_spec (unat f) = S * 2 ^ 15 + 31 * 2 ^ 10"
        using n255 True by (simp add: G)
      have "unat (ucast (push_bit 15 sign OR 0x7c00) :: u16) = S * 2 ^ 15 + 31 * 2 ^ 10"
        using half_inf_compose[OF s2] sS by simp
      then show ?thesis by (simp only: L R)
    next
      case n143: False
      show ?thesis
      proof (cases "E \<le> 112")
        case True
        have L: "float_to_half_manual f = ucast (push_bit 15 sign)"
          using n255 n143 True by (simp add: F c1 c2 c3)
        have R: "floatToHalf_spec (unat f) = S * 2 ^ 15"
          using n255 n143 True by (simp add: G)
        have "unat (ucast (push_bit 15 sign) :: u16) = S * 2 ^ 15"
          using half_zero_compose[OF s2] sS by simp
        then show ?thesis by (simp only: L R)
      next
        case n112: False
        have neE: "unat ne = E - 112"
          unfolding ne_def using unat_rebias[of exponent] eE n112 by simp
        have ne32: "unat ne < 32" using neE n143 by simp
        show ?thesis
        proof (cases "M div 2 ^ 12 mod 2 = 1")
          case bit: True
          show ?thesis
          proof (cases "M div 2 ^ 13 + 1 = 1024")
            case carry: True
            have ne1: "unat (ne + 1) = E - 112 + 1"
              using unat_succ_u32[of ne] ne32 neE by simp
            have c6: "ne + 1 = 31 \<longleftrightarrow> E - 112 + 1 = 31"
              using ne1 by (simp add: word_unat_eq_iff)
            show ?thesis
            proof (cases "E - 112 + 1 = 31")
              case True
              have L: "float_to_half_manual f = ucast (push_bit 15 sign OR 0x7c00)"
                using n255 n143 n112 bit carry True by (simp add: F c1 c2 c3 c4 c5 c6)
              have R: "floatToHalf_spec (unat f) = S * 2 ^ 15 + 31 * 2 ^ 10"
                using n255 n143 n112 bit carry True by (simp add: G)
              have "unat (ucast (push_bit 15 sign OR 0x7c00) :: u16) = S * 2 ^ 15 + 31 * 2 ^ 10"
                using half_inf_compose[OF s2] sS by simp
              then show ?thesis by (simp only: L R)
            next
              case False
              have L: "float_to_half_manual f =
                  ucast (push_bit 15 sign OR push_bit 10 (ne + 1) OR ucast (0 :: u16))"
                using n255 n143 n112 bit carry False by (simp add: F c1 c2 c3 c4 c5 c6)
              have R: "floatToHalf_spec (unat f) = S * 2 ^ 15 + (E - 112 + 1) * 2 ^ 10"
                using n255 n143 n112 bit carry False by (simp add: G)
              have "unat (ne + 1) < 32" using ne1 n143 by simp
              then have "unat (ucast (push_bit 15 sign OR push_bit 10 (ne + 1) OR ucast (0 :: u16)) :: u16) =
                  S * 2 ^ 15 + (E - 112 + 1) * 2 ^ 10"
                using half_compose[OF s2, of "ne + 1" "ucast (0 :: u16)"] sS ne1 by simp
              then show ?thesis by (simp only: L R)
            qed
          next
            case nocarry: False
            have L: "float_to_half_manual f =
                ucast (push_bit 15 sign OR push_bit 10 ne OR ucast (nm + 1))"
              using n255 n143 n112 bit nocarry by (simp add: F c1 c2 c3 c4 c5)
            have R: "floatToHalf_spec (unat f) = S * 2 ^ 15 + (E - 112) * 2 ^ 10 + (M div 2 ^ 13 + 1)"
              using n255 n143 n112 bit nocarry by (simp add: G)
            have "unat (nm + 1) < 1024" using nm1 nm10 nmM nocarry by simp
            then have "unat (ucast (nm + 1) :: u32) < 1024" by (simp only: unat_ucast_u16_u32)
            then have "unat (ucast (push_bit 15 sign OR push_bit 10 ne OR ucast (nm + 1)) :: u16) =
                S * 2 ^ 15 + (E - 112) * 2 ^ 10 + (M div 2 ^ 13 + 1)"
              using half_compose[OF s2 ne32, of "ucast (nm + 1)"] sS neE nm1
              by (simp add: unat_ucast_u16_u32)
            then show ?thesis by (simp only: L R)
          qed
        next
          case nobit: False
          then have b0: "M div 2 ^ 12 mod 2 = 0" by simp
          have lt: "M div 2 ^ 13 < 1024" using M23 by (simp add: less_mult_imp_div_less)
          have L: "float_to_half_manual f = ucast (push_bit 15 sign OR push_bit 10 ne OR ucast nm)"
            using n255 n143 n112 nobit by (simp add: F c1 c2 c3 c4)
          have R: "floatToHalf_spec (unat f) = S * 2 ^ 15 + (E - 112) * 2 ^ 10 + M div 2 ^ 13"
            using n255 n143 n112 b0 lt by (simp add: G)
          have "unat (ucast nm :: u32) < 1024" using nm10 by (simp only: unat_ucast_u16_u32)
          then have "unat (ucast (push_bit 15 sign OR push_bit 10 ne OR ucast nm) :: u16) =
                S * 2 ^ 15 + (E - 112) * 2 ^ 10 + M div 2 ^ 13"
            using half_compose[OF s2 ne32, of "ucast nm"] sS neE nmM
            by (simp add: unat_ucast_u16_u32)
          then show ?thesis by (simp only: L R)
        qed
      qed
    qed
  qed
qed

text \<open>
  Claim C7.  For every 32-bit float, \<open>float_to_half_manual\<close> returns what the
  specification describes: with a biased exponent of 255, the half infinity or NaN with
  the sign of the source and mantissa 1 or 0 as the source mantissa is non-zero or zero;
  otherwise, with the exponent rebiased from 127 to 15, signed infinity when it is 31 or
  more, signed zero when it is 0 or less, and else the mantissa cut to 10 bits and rounded
  up when the highest discarded bit is set, a carry out of the mantissa incrementing the
  exponent and giving infinity when that reaches 31.
\<close>

theorem float_to_half_manual_refines_spec:
  "unat (float_to_half_manual f) = floatToHalf_spec (unat f)"
  by (rule float_to_half_manual_unat)

theorem float_to_half_manual_refines_spec_witness:
  "float_to_half_manual 0x3F801000 = 0x3C01
   \<and> floatToHalf_spec (unat (0x3F801000 :: u32)) = unat (0x3C01 :: u16)
   \<and> floatToHalf_spec (unat (0x7FC00000 :: u32)) = unat (0x7C01 :: u16)
   \<and> floatToHalf_spec (unat (0xC77FF000 :: u32)) = unat (0xFC00 :: u16)
   \<and> floatToHalf_spec (unat (0x33800000 :: u32)) = unat (0x0000 :: u16)"
proof -
  have "float_to_half_manual 0x3F801000 = 0x3C01"
    and "float_to_half_manual 0x7FC00000 = 0x7C01"
    and "float_to_half_manual 0xC77FF000 = 0xFC00"
    and "float_to_half_manual 0x33800000 = 0x0000"
    by (simp_all add: codec_eval)
  then show ?thesis
    using float_to_half_manual_refines_spec [of "0x3F801000"]
      float_to_half_manual_refines_spec [of "0x7FC00000"]
      float_to_half_manual_refines_spec [of "0xC77FF000"]
      float_to_half_manual_refines_spec [of "0x33800000"]
    by simp
qed

end
